theory Spec2Isabelle
  imports Main "HOL-Library.Product_Lexorder" "HOL-Library.Multiset"
begin

section \<open>Text\<close>

text \<open>
  A Python \<open>str\<close> is modelled as a \<open>string\<close>, one \<open>char\<close> per code point. The character
  tables below are those of Python 3 on ASCII (code points 0 to 127): \<open>str.lower\<close>,
  \<open>str.upper\<close>, \<open>str.isspace\<close> and the classes \<open>\w\<close>, \<open>\d\<close>, \<open>\s\<close> of the \<open>re\<close> module.
  The other 128 values of \<open>char\<close> stand for code points that Python classifies as caseless
  symbols: no letter, digit or whitespace, and unchanged by \<open>lower\<close> and \<open>upper\<close>. Letters and
  digits beyond ASCII are outside the model.
\<close>

definition is_upper :: "char \<Rightarrow> bool" where
  "is_upper c = (let n = (of_char c :: nat) in 65 \<le> n \<and> n \<le> 90)"

definition is_lower :: "char \<Rightarrow> bool" where
  "is_lower c = (let n = (of_char c :: nat) in 97 \<le> n \<and> n \<le> 122)"

definition is_digit :: "char \<Rightarrow> bool" where
  "is_digit c = (let n = (of_char c :: nat) in 48 \<le> n \<and> n \<le> 57)"

text \<open>\<open>str.isspace\<close> and \<open>\s\<close>: tab, line feed, vertical tab, form feed, carriage return,
  the separators 28 to 31, and the space.\<close>

definition is_space :: "char \<Rightarrow> bool" where
  "is_space c = (let n = (of_char c :: nat) in (9 \<le> n \<and> n \<le> 13) \<or> (28 \<le> n \<and> n \<le> 32))"

text \<open>The class \<open>\w\<close>, which decides where \<open>\b\<close> matches.\<close>

definition is_word :: "char \<Rightarrow> bool" where
  "is_word c = (is_upper c \<or> is_lower c \<or> is_digit c \<or> c = CHR ''_'')"

definition lower_char :: "char \<Rightarrow> char" where
  "lower_char c = (if is_upper c then char_of ((of_char c :: nat) + 32) else c)"

definition upper_char :: "char \<Rightarrow> char" where
  "upper_char c = (if is_lower c then char_of ((of_char c :: nat) - 32) else c)"

definition lower :: "string \<Rightarrow> string" where
  "lower s = map lower_char s"

definition upper :: "string \<Rightarrow> string" where
  "upper s = map upper_char s"

text \<open>\<open>text.split()\<close>: the maximal runs of characters that are not whitespace. The first
  argument of \<open>split_acc\<close> is the run read so far.\<close>

fun split_acc :: "string \<Rightarrow> string \<Rightarrow> string list" where
  "split_acc w [] = (if w = [] then [] else [w])"
| "split_acc w (c # cs) =
     (if is_space c then (if w = [] then split_acc [] cs else w # split_acc [] cs)
      else split_acc (w @ [c]) cs)"

definition split_ws :: "string \<Rightarrow> string list" where
  "split_ws s = split_acc [] s"

text \<open>\<open>sep.join(words)\<close>.\<close>

fun join :: "string \<Rightarrow> string list \<Rightarrow> string" where
  "join sep [] = []"
| "join sep [w] = w"
| "join sep (w # v # ws) = w @ sep @ join sep (v # ws)"

text \<open>\<open>int(m.group(0))\<close> on a run of ASCII digits.\<close>

definition digit_val :: "char \<Rightarrow> int" where
  "digit_val c = int (of_char c) - 48"

definition int_of_digits :: "string \<Rightarrow> int" where
  "int_of_digits s = foldl (\<lambda>n c. 10 * n + digit_val c) 0 s"

section \<open>Regular expressions\<close>

text \<open>
  The fragment of Python's \<open>re\<close> syntax that the program's patterns are written in. A
  character class matches one character; \<open>CCharI\<close> is a literal compiled under
  \<open>re.IGNORECASE\<close>, \<open>CDot\<close> is \<open>.\<close> (any character but the line feed), and
  \<open>CNotLowerAlnumSpace\<close> is the class \<open>[^a-z0-9\s]\<close>.
\<close>

datatype cclass =
    CChar char
  | CCharI char
  | CDigit
  | CDot
  | CNotLowerAlnumSpace

fun cmatch :: "cclass \<Rightarrow> char \<Rightarrow> bool" where
  "cmatch (CChar x) c = (c = x)"
| "cmatch (CCharI x) c = (lower_char c = lower_char x)"
| "cmatch CDigit c = is_digit c"
| "cmatch CDot c = (c \<noteq> CHR 0x0A)"
| "cmatch CNotLowerAlnumSpace c = (\<not> (is_lower c \<or> is_digit c \<or> is_space c))"

text \<open>
  \<open>Eps\<close> is the empty pattern and \<open>Never\<close> the empty alternation; \<open>WordB\<close> is \<open>\b\<close>,
  \<open>Opt r\<close> is \<open>(?:r)?\<close>, \<open>Plus k\<close> is the greedy \<open>k+\<close> and \<open>LazyStar k\<close> the lazy \<open>k*?\<close>
  of a character class \<open>k\<close>.
\<close>

datatype rx =
    Eps
  | Never
  | Sym cclass
  | WordB
  | Seq rx rx
  | Alt rx rx
  | Opt rx
  | Plus cclass
  | LazyStar cclass

text \<open>A position in the subject: the character before it (if any) and the text from it on.\<close>

type_synonym pos = "char option \<times> string"

definition word_before :: "pos \<Rightarrow> bool" where
  "word_before p = (case fst p of None \<Rightarrow> False | Some c \<Rightarrow> is_word c)"

definition word_after :: "pos \<Rightarrow> bool" where
  "word_after p = (case snd p of [] \<Rightarrow> False | c # _ \<Rightarrow> is_word c)"

text \<open>The positions after one, two, ... characters of class \<open>k\<close>, shortest run first.\<close>

fun run_ends :: "cclass \<Rightarrow> string \<Rightarrow> pos list" where
  "run_ends k [] = []"
| "run_ends k (c # cs) = (if cmatch k c then (Some c, cs) # run_ends k cs else [])"

text \<open>
  \<open>ends r p\<close> lists the positions at which a match of \<open>r\<close> starting at \<open>p\<close> can end, in
  the order in which Python's backtracking matcher tries them: the left alternative
  before the right one, the optional part before its omission, a greedy repetition
  longest first and a lazy one shortest first. The matcher returns the first.
\<close>

fun ends :: "rx \<Rightarrow> pos \<Rightarrow> pos list" where
  "ends Eps p = [p]"
| "ends Never p = []"
| "ends (Sym k) p =
     (case snd p of [] \<Rightarrow> [] | c # cs \<Rightarrow> if cmatch k c then [(Some c, cs)] else [])"
| "ends WordB p = (if word_before p \<noteq> word_after p then [p] else [])"
| "ends (Seq a b) p = concat (map (ends b) (ends a p))"
| "ends (Alt a b) p = ends a p @ ends b p"
| "ends (Opt a) p = ends a p @ [p]"
| "ends (Plus k) p = rev (run_ends k (snd p))"
| "ends (LazyStar k) p = p # run_ends k (snd p)"

text \<open>The length of the match of \<open>r\<close> at \<open>p\<close>, if there is one.\<close>

definition match_at :: "rx \<Rightarrow> pos \<Rightarrow> nat option" where
  "match_at r p =
     (case ends r p of [] \<Rightarrow> None | e # _ \<Rightarrow> Some (length (snd p) - length (snd e)))"

text \<open>\<open>pattern.search(s)\<close>: the text of the leftmost match, \<open>m.group(0)\<close>.\<close>

fun search_from :: "rx \<Rightarrow> char option \<Rightarrow> string \<Rightarrow> string option" where
  "search_from r prev [] = (case match_at r (prev, []) of None \<Rightarrow> None | Some n \<Rightarrow> Some [])"
| "search_from r prev (c # cs) =
     (case match_at r (prev, c # cs) of
        Some n \<Rightarrow> Some (take n (c # cs))
      | None \<Rightarrow> search_from r (Some c) cs)"

definition search :: "rx \<Rightarrow> string \<Rightarrow> string option" where
  "search r s = search_from r None s"

text \<open>
  \<open>pattern.sub(rep, s)\<close> for a pattern that matches no empty text (every pattern the
  program substitutes is one, see \<open>nullable\<close> below): the leftmost match is replaced and
  the scan goes on behind it. The counter is the number of matched characters still to
  be skipped.
\<close>

fun sub_from :: "rx \<Rightarrow> string \<Rightarrow> char option \<Rightarrow> nat \<Rightarrow> string \<Rightarrow> string" where
  "sub_from r rep prev k [] = []"
| "sub_from r rep prev (Suc k) (c # cs) = sub_from r rep (Some c) k cs"
| "sub_from r rep prev 0 (c # cs) =
     (case match_at r (prev, c # cs) of
        Some (Suc n) \<Rightarrow> rep @ sub_from r rep (Some c) n cs
      | _ \<Rightarrow> c # sub_from r rep (Some c) 0 cs)"

definition sub :: "rx \<Rightarrow> string \<Rightarrow> string \<Rightarrow> string" where
  "sub r rep s = sub_from r rep None 0 s"

text \<open>Whether a pattern can match the empty text.\<close>

fun nullable :: "rx \<Rightarrow> bool" where
  "nullable Eps = True"
| "nullable Never = False"
| "nullable (Sym k) = False"
| "nullable WordB = True"
| "nullable (Seq a b) = (nullable a \<and> nullable b)"
| "nullable (Alt a b) = (nullable a \<or> nullable b)"
| "nullable (Opt a) = True"
| "nullable (Plus k) = False"
| "nullable (LazyStar k) = True"

definition seqs :: "rx list \<Rightarrow> rx" where
  "seqs rs = foldr Seq rs Eps"

definition alts :: "rx list \<Rightarrow> rx" where
  "alts rs = foldr Alt rs Never"

definition str_i :: "string \<Rightarrow> rx" where
  "str_i w = seqs (map (\<lambda>c. Sym (CCharI c)) w)"

definition str_c :: "string \<Rightarrow> rx" where
  "str_c w = seqs (map (\<lambda>c. Sym (CChar c)) w)"

text \<open>\<open>\bw\b\<close> under \<open>re.IGNORECASE\<close>.\<close>

definition word_i :: "string \<Rightarrow> rx" where
  "word_i w = seqs [WordB, str_i w, WordB]"

section \<open>TextNormalizer\<close>

definition NOISE_PATTERNS :: "rx list" where
  "NOISE_PATTERNS =
    [ seqs [WordB, str_i ''remaster'', Opt (str_i ''ed''), WordB],
      word_i ''anniversary'',
      word_i ''deluxe'',
      word_i ''bonus'',
      word_i ''album version'',
      word_i ''single version'',
      word_i ''radio edit'',
      word_i ''original'',
      word_i ''explicit'',
      word_i ''clean'',
      word_i ''live'',
      word_i ''acoustic'',
      word_i ''mono'',
      word_i ''stereo'',
      word_i ''digital remaster'',
      word_i ''revisited'',
      word_i ''expanded'',
      word_i ''special edition'',
      seqs [WordB, Alt (str_i ''19'') (str_i ''20''), Sym CDigit, Sym CDigit, WordB],
      seqs [WordB, Plus CDigit,
            alts [str_i ''st'', str_i ''nd'', str_i ''rd'', str_i ''th''], WordB] ]"

definition NOISE_RE :: rx where
  "NOISE_RE = alts NOISE_PATTERNS"

text \<open>The three patterns \<open>normalize_text\<close> writes in place: \<open>\(.*?\)\<close>, \<open>\[.*?\]\<close> and
  \<open>[^a-z0-9\s]\<close>.\<close>

definition PAREN_RE :: rx where
  "PAREN_RE = seqs [Sym (CChar (CHR ''('')), LazyStar CDot, Sym (CChar (CHR '')''))]"

definition BRACKET_RE :: rx where
  "BRACKET_RE = seqs [Sym (CChar (CHR ''['')), LazyStar CDot, Sym (CChar (CHR '']''))]"

definition SYMBOL_RE :: rx where
  "SYMBOL_RE = Sym CNotLowerAlnumSpace"

definition normalize_text :: "string \<Rightarrow> string" where
  "normalize_text text0 =
     (let text1 = lower text0;
          text2 = sub PAREN_RE '' '' text1;
          text3 = sub BRACKET_RE '' '' text2;
          text4 = sub NOISE_RE '' '' text3;
          text5 = sub SYMBOL_RE '' '' text4
      in join '' '' (split_ws text5))"

text \<open>The characters a normalized text is made of, besides the single spaces between
  its words: the letters a to z and the digits.\<close>

definition plain_char :: "char \<Rightarrow> bool" where
  "plain_char c = (is_lower c \<or> is_digit c)"

definition plain_words :: "string list \<Rightarrow> bool" where
  "plain_words ws = (\<forall>w \<in> set ws. w \<noteq> [] \<and> (\<forall>c \<in> set w. plain_char c))"

text \<open>
  Three notions for reasoning about matches: a pattern that consumes no character;
  a character class all of whose characters are letters or digits (up to case); a
  pattern whose every match begins with a character of such a class.
\<close>

fun zero_width :: "rx \<Rightarrow> bool" where
  "zero_width Eps = True"
| "zero_width WordB = True"
| "zero_width (Seq a b) = (zero_width a \<and> zero_width b)"
| "zero_width r = False"

definition starts_plain :: "cclass \<Rightarrow> bool" where
  "starts_plain k = (case k of CCharI x \<Rightarrow> plain_char x | CDigit \<Rightarrow> True | _ \<Rightarrow> False)"

fun starts_with_plain :: "rx \<Rightarrow> bool" where
  "starts_with_plain (Sym k) = starts_plain k"
| "starts_with_plain (Plus k) = starts_plain k"
| "starts_with_plain (Seq a b) =
     (starts_with_plain a \<or> (zero_width a \<and> starts_with_plain b))"
| "starts_with_plain (Alt a b) = (starts_with_plain a \<and> starts_with_plain b)"
| "starts_with_plain Never = True"
| "starts_with_plain r = False"

text \<open>The number of characters of a text that are not whitespace.\<close>

definition letters :: "string \<Rightarrow> nat" where
  "letters s = length (filter (\<lambda>c. \<not> is_space c) s)"

section \<open>Tracks and VersionRanker\<close>

text \<open>
  A track object as the program reads it: \<open>track.id\<close>, \<open>track.name\<close> (which may be
  \<open>None\<close>), the artist's name (\<open>None\<close> when \<open>track.artist\<close> is unset), the album's name
  (\<open>None\<close> when \<open>track.album\<close> is unset or has no name; both read as the empty text) and
  the text of \<open>track.audio_quality\<close> (the enum's \<open>value\<close> or the raw string; \<open>None\<close> when
  unset).
\<close>

record track =
  tid :: int
  title :: "string option"
  artist :: "string option"
  album :: "string option"
  audio_quality :: "string option"

definition QUALITY_RANK :: "(string \<times> int) list" where
  "QUALITY_RANK =
    [ (''HI_RES_LOSSLESS'', 5),
      (''HI_RES'', 4),
      (''LOSSLESS'', 3),
      (''HIGH'', 2),
      (''LOW'', 1) ]"

definition RE_REMASTER :: rx where
  "RE_REMASTER =
     seqs [WordB,
           Alt (seqs [str_i ''remaster'', Opt (str_i ''ed'')]) (str_i ''digital remaster''),
           WordB]"

definition RE_EXPLICIT :: rx where "RE_EXPLICIT = word_i ''explicit''"
definition RE_CLEAN :: rx where "RE_CLEAN = word_i ''clean''"
definition RE_STEREO :: rx where "RE_STEREO = word_i ''stereo''"
definition RE_MONO :: rx where "RE_MONO = word_i ''mono''"
definition RE_ALBUM_VER :: rx where "RE_ALBUM_VER = word_i ''album version''"
definition RE_SINGLE_VER :: rx where "RE_SINGLE_VER = word_i ''single version''"

definition RE_YEAR :: rx where
  "RE_YEAR = seqs [WordB, Alt (str_c ''19'') (str_c ''20''), Sym CDigit, Sym CDigit, WordB]"

definition or_empty :: "string option \<Rightarrow> string" where
  "or_empty x = (case x of None \<Rightarrow> [] | Some s \<Rightarrow> s)"

definition tag :: "track \<Rightarrow> string" where
  "tag t = or_empty (title t) @ '' '' @ or_empty (album t)"

definition found :: "rx \<Rightarrow> string \<Rightarrow> bool" where
  "found r s = (search r s \<noteq> None)"

definition remaster_year :: "track \<Rightarrow> int" where
  "remaster_year t =
     (if \<not> found RE_REMASTER (tag t) then - 1
      else case search RE_YEAR (tag t) of Some m \<Rightarrow> int_of_digits m | None \<Rightarrow> 0)"

definition version_priority :: "track \<Rightarrow> int \<times> int \<times> int \<times> int \<times> int" where
  "version_priority t =
     (let remaster_score = remaster_year t;
          explicit_score =
            (if found RE_EXPLICIT (tag t) then 1
             else if \<not> found RE_CLEAN (tag t) then 0 else - 1);
          stereo_score =
            (if found RE_STEREO (tag t) then 1
             else if found RE_MONO (tag t) then - 1 else 0);
          album_score =
            (if found RE_ALBUM_VER (tag t) then 1
             else if found RE_SINGLE_VER (tag t) then - 1 else 0);
          id_score = tid t
      in (remaster_score, explicit_score, stereo_score, album_score, id_score))"

definition get_quality :: "track \<Rightarrow> string" where
  "get_quality t = (case audio_quality t of None \<Rightarrow> ''UNKNOWN'' | Some q \<Rightarrow> upper q)"

definition quality_rank :: "track \<Rightarrow> int" where
  "quality_rank t = (case map_of QUALITY_RANK (get_quality t) of Some r \<Rightarrow> r | None \<Rightarrow> 0)"

section \<open>DuplicateGrouper\<close>

text \<open>The key of \<open>v.sort(key=sort_key)\<close>; Python compares the tuples lexicographically,
  and so does the order on products used here.\<close>

definition sort_key_track :: "track \<Rightarrow> int \<times> int \<times> int \<times> int \<times> int \<times> int" where
  "sort_key_track t =
     (let qr = quality_rank t
      in case version_priority t of
           (vp0, vp1, vp2, vp3, vp4) \<Rightarrow> (- qr, - vp0, - vp1, - vp2, - vp3, vp4))"

type_synonym norm_key = "string \<times> string"

definition track_key :: "track \<Rightarrow> norm_key" where
  "track_key t =
     (let artist_name = (case artist t of Some a \<Rightarrow> a | None \<Rightarrow> ''desconocido'');
          title_text = or_empty (title t)
      in (normalize_text artist_name, normalize_text title_text))"

text \<open>\<open>groups[key].append(track)\<close> on a dictionary that keeps its keys in the order of
  their first insertion.\<close>

fun groups_append :: "norm_key \<Rightarrow> track \<Rightarrow> (norm_key \<times> track list) list
    \<Rightarrow> (norm_key \<times> track list) list" where
  "groups_append k t [] = [(k, [t])]"
| "groups_append k t ((k', v) # g) =
     (if k' = k then (k', v @ [t]) # g else (k', v) # groups_append k t g)"

definition group_tracks :: "track list \<Rightarrow> (norm_key \<times> track list) list" where
  "group_tracks tracks = foldl (\<lambda>g t. groups_append (track_key t) t g) [] tracks"

text \<open>Python's \<open>list.sort\<close> is stable, as is \<open>sort_key\<close> of the list library.\<close>

definition find_duplicates :: "track list \<Rightarrow> (norm_key \<times> track list) list" where
  "find_duplicates tracks =
     map (\<lambda>(k, v). (k, sort_key sort_key_track v))
         (filter (\<lambda>(k, v). length v > 1) (group_tracks tracks))"

text \<open>
  The composite key in the words of the specification, written without the program's
  own functions \<open>tag\<close>, \<open>quality_rank\<close>, \<open>remaster_year\<close> and \<open>version_priority\<close>, to be
  compared with them.

  The rank of a quality tier: the five known tiers rank 5 down to 1, and an unknown
  quality (none, or any other label) ranks 0, below all of them.
\<close>

definition tier_rank :: "string option \<Rightarrow> int" where
  "tier_rank q =
     (if q = Some ''HI_RES_LOSSLESS'' then 5
      else if q = Some ''HI_RES'' then 4
      else if q = Some ''LOSSLESS'' then 3
      else if q = Some ''HIGH'' then 2
      else if q = Some ''LOW'' then 1
      else 0)"

text \<open>The remaster score of a text: -1 without remaster marker, else the number of the
  first year found in it, or 0 when it holds no year.\<close>

definition remaster_score :: "string \<Rightarrow> int" where
  "remaster_score combined =
     (if found RE_REMASTER combined
      then (case search RE_YEAR combined of None \<Rightarrow> 0 | Some m \<Rightarrow> int_of_digits m)
      else - 1)"

text \<open>The score of a pair of markers: +1 when the first appears, -1 when the second
  appears and the first does not, 0 when neither does.\<close>

definition marker_score :: "rx \<Rightarrow> rx \<Rightarrow> string \<Rightarrow> int" where
  "marker_score up down combined =
     (if found up combined then 1 else if found down combined then - 1 else 0)"

text \<open>
  The key, most significant component first: quality tier rank of the upper-cased
  quality label; then, each read from the combined text "title, space, album":
  remaster score, explicit (+1) or clean (-1), stereo (+1) or mono (-1), album version
  (+1) or single version (-1). A larger key is preferred; among equal keys the smaller
  identifier is.
\<close>

definition composite_key :: "track \<Rightarrow> int \<times> int \<times> int \<times> int \<times> int" where
  "composite_key t =
     (let combined = or_empty (title t) @ '' '' @ or_empty (album t)
      in (tier_rank (map_option upper (audio_quality t)),
          remaster_score combined,
          marker_score RE_EXPLICIT RE_CLEAN combined,
          marker_score RE_STEREO RE_MONO combined,
          marker_score RE_ALBUM_VER RE_SINGLE_VER combined))"

text \<open>The comparison the sort makes: \<open>a\<close> comes strictly before \<open>b\<close>.\<close>

definition ranks_before :: "track \<Rightarrow> track \<Rightarrow> bool" where
  "ranks_before a b = (sort_key_track a < sort_key_track b)"

section \<open>PaginatedCollector\<close>

definition MAX_TRACKS :: nat where
  "MAX_TRACKS = 50000"

definition limit :: nat where
  "limit = 100"

text \<open>
  The payload \<open>item.get("item")\<close> of one entry of a page, as far as \<open>get_all_tracks\<close>
  reads it: \<open>track_data.get("id")\<close>, the raw quality
  \<open>track_data.get("audioQuality") or track_data.get("audio_quality")\<close>, and the track
  that \<open>_parse_track_safe\<close> returns for it (\<open>None\<close> when that track's \<open>id\<close> is \<open>None\<close>).
\<close>

record track_data =
  data_id :: "int option"
  data_quality :: "string option"
  parsed :: "track option"

text \<open>
  The answer to one page request: the request raises, or the response carries the list
  \<open>data.get("items", [])\<close>, each entry with its payload or without one (a ghost entry).
\<close>

datatype response = RequestFailed | Page "track_data option list"

record cstate =
  all_tracks :: "track list"
  seen_ids :: "int set"
  skipped_unavailable :: nat
  offset :: nat
  consecutive_empty :: nat

definition initial_state :: cstate where
  "initial_state =
     \<lparr>all_tracks = [], seen_ids = {}, skipped_unavailable = 0, offset = 0,
      consecutive_empty = 0\<rparr>"

text \<open>The body of \<open>for item in items\<close>.\<close>

definition process_item :: "cstate \<Rightarrow> track_data option \<Rightarrow> cstate" where
  "process_item st item =
     (case item of
        None \<Rightarrow> st\<lparr>skipped_unavailable := skipped_unavailable st + 1\<rparr>
      | Some d \<Rightarrow>
          (case data_id d of
             None \<Rightarrow> st
           | Some track_id \<Rightarrow>
               if track_id = 0 \<or> track_id \<in> seen_ids st then st
               else
                 (case parsed d of
                    None \<Rightarrow> st
                  | Some t \<Rightarrow>
                      let t' = (case data_quality d of
                                  None \<Rightarrow> t
                                | Some raw_q \<Rightarrow>
                                    if raw_q = [] then t else t\<lparr>audio_quality := Some raw_q\<rparr>)
                      in st\<lparr>seen_ids := insert track_id (seen_ids st),
                            all_tracks := all_tracks st @ [t']\<rparr>)))"

datatype stop = RequestError | PagesExhausted | LimitReached

text \<open>
  One turn of \<open>while True\<close> on the response to the request at the current offset: the
  reason of the \<open>break\<close>, if the turn ends the loop, and the state after it.
\<close>

definition page_step :: "response \<Rightarrow> cstate \<Rightarrow> stop option \<times> cstate" where
  "page_step r st =
     (case r of
        RequestFailed \<Rightarrow> (Some RequestError, st)
      | Page items \<Rightarrow>
          if items = [] then
            (let st1 = st\<lparr>consecutive_empty := consecutive_empty st + 1\<rparr>
             in if consecutive_empty st1 \<ge> 2 then (Some PagesExhausted, st1)
                else (None, st1\<lparr>offset := offset st1 + limit\<rparr>))
          else
            (let st1 = st\<lparr>consecutive_empty := 0\<rparr>;
                 st2 = foldl process_item st1 items
             in if length (all_tracks st2) \<ge> MAX_TRACKS then (Some LimitReached, st2)
                else (None, st2\<lparr>offset := offset st2 + limit\<rparr>)))"

text \<open>
  The loop. The session is the remote list as the loop sees it: the response to the
  request at each offset (every offset is requested at most once, so this covers a list
  that changes between requests). The loop need not end: a session whose pages never
  run empty and never add a track keeps it running, and its value is then \<open>None\<close>.
\<close>

partial_function (option) collect_loop :: "(nat \<Rightarrow> response) \<Rightarrow> cstate \<Rightarrow> (stop \<times> cstate) option"
where
  "collect_loop session st =
     (case page_step (session (offset st)) st of
        (Some why, st') \<Rightarrow> Some (why, st')
      | (None, st') \<Rightarrow> collect_loop session st')"

definition get_all_tracks :: "(nat \<Rightarrow> response) \<Rightarrow> track list option" where
  "get_all_tracks session =
     map_option (\<lambda>(why, st). all_tracks st) (collect_loop session initial_state)"

text \<open>What the loop keeps true of the counter: it is 0, or it is 1 and the page
  requested before the current one was empty.\<close>

definition counter_ok :: "(nat \<Rightarrow> response) \<Rightarrow> cstate \<Rightarrow> bool" where
  "counter_ok session st \<longleftrightarrow>
     consecutive_empty st = 0
     \<or> (consecutive_empty st = 1 \<and> limit \<le> offset st \<and> session (offset st - limit) = Page [])"

section \<open>ConvergenceLoop\<close>

text \<open>
  What one round meets: the list that \<open>get_all_tracks\<close> returns (\<open>None\<close> when the call
  raises), and whether \<open>favorites.remove_track\<close> succeeds for an identifier.
\<close>

record round_env =
  listing :: "track list option"
  remove_ok :: "int \<Rightarrow> bool"

text \<open>
  The effects of the rounds: the removal requests sent, the entries of \<open>all_removed\<close>
  (round, removed track, keeper) and of \<open>all_errors\<close>.
\<close>

record rounds_log =
  removal_requests :: "int list"
  all_removed :: "(nat \<times> track \<times> track) list"
  all_errors :: "track list"

definition empty_log :: rounds_log where
  "empty_log = \<lparr>removal_requests = [], all_removed = [], all_errors = []\<rparr>"

text \<open>The body of \<open>for track in extras\<close>, on the pair of \<open>eliminated\<close> and the log.\<close>

definition remove_extra :: "round_env \<Rightarrow> nat \<Rightarrow> track \<Rightarrow> nat \<times> rounds_log \<Rightarrow> track
    \<Rightarrow> nat \<times> rounds_log" where
  "remove_extra env round_num keeper acc t =
     (case acc of (eliminated, lg) \<Rightarrow>
        let lg1 = lg\<lparr>removal_requests := removal_requests lg @ [tid t]\<rparr>
        in if remove_ok env (tid t)
           then (eliminated + 1,
                 lg1\<lparr>all_removed := all_removed lg1 @ [(round_num, t, keeper)]\<rparr>)
           else (eliminated, lg1\<lparr>all_errors := all_errors lg1 @ [t]\<rparr>))"

text \<open>The body of \<open>for (_, _), group in duplicates.items()\<close>: \<open>group[0]\<close> is kept.\<close>

definition remove_group :: "round_env \<Rightarrow> nat \<Rightarrow> nat \<times> rounds_log
    \<Rightarrow> norm_key \<times> track list \<Rightarrow> nat \<times> rounds_log" where
  "remove_group env round_num acc kg =
     (case snd kg of
        [] \<Rightarrow> acc
      | keeper # extras \<Rightarrow> foldl (remove_extra env round_num keeper) acc extras)"

definition remove_duplicates_round :: "round_env \<Rightarrow> nat \<Rightarrow> rounds_log \<Rightarrow> nat \<times> rounds_log" where
  "remove_duplicates_round env round_num lg =
     (case listing env of
        None \<Rightarrow> (0, lg)
      | Some tracks \<Rightarrow>
          let duplicates = find_duplicates tracks
          in if duplicates = [] then (0, lg)
             else foldl (remove_group env round_num) (0, lg) duplicates)"

text \<open>
  The loop of \<open>main\<close>, on what the successive rounds meet. It returns the number of the
  round it stopped at and the log; \<open>None\<close> says that the loop is still running when the
  listed rounds are over.
\<close>

fun run_rounds :: "round_env list \<Rightarrow> nat \<Rightarrow> rounds_log \<Rightarrow> (nat \<times> rounds_log) option" where
  "run_rounds [] round_num lg = None"
| "run_rounds (env # envs) round_num lg =
     (case remove_duplicates_round env round_num lg of
        (eliminated, lg') \<Rightarrow>
          if eliminated = 0 then Some (round_num, lg')
          else run_rounds envs (round_num + 1) lg')"

definition main_loop :: "round_env list \<Rightarrow> (nat \<times> rounds_log) option" where
  "main_loop envs = run_rounds envs 1 empty_log"

text \<open>The number of copies a round removes; it depends neither on the round's number nor
  on the log so far (lemma \<open>fst_round\<close>).\<close>

definition round_removed :: "round_env \<Rightarrow> nat" where
  "round_removed env = fst (remove_duplicates_round env 0 empty_log)"

section \<open>QualityUpgradeMatcher\<close>

definition TOP_QUALITIES :: "string list" where
  "TOP_QUALITIES = [''HI_RES_LOSSLESS'', ''HI_RES'']"

text \<open>The filter of \<open>search_better_version\<close> on a candidate: normalized artist and
  normalized title equal those of the track.\<close>

definition same_song :: "track \<Rightarrow> track \<Rightarrow> bool" where
  "same_song t candidate =
     (normalize_text (or_empty (artist candidate)) = normalize_text (or_empty (artist t))
      \<and> normalize_text (or_empty (title candidate)) = normalize_text (or_empty (title t)))"

text \<open>The body of \<open>for candidate in candidates\<close>, on \<open>best\<close> and \<open>best_rank\<close>.\<close>

fun best_loop :: "track \<Rightarrow> track option \<Rightarrow> int \<Rightarrow> track list \<Rightarrow> track option" where
  "best_loop t best best_rank [] = best"
| "best_loop t best best_rank (candidate # candidates) =
     (if audio_quality candidate = None then best_loop t best best_rank candidates
      else if normalize_text (or_empty (artist candidate)) \<noteq> normalize_text (or_empty (artist t))
        then best_loop t best best_rank candidates
      else if normalize_text (or_empty (title candidate)) \<noteq> normalize_text (or_empty (title t))
        then best_loop t best best_rank candidates
      else
        (let cand_rank = quality_rank candidate
         in if cand_rank > best_rank then best_loop t (Some candidate) cand_rank candidates
            else best_loop t best best_rank candidates))"

text \<open>\<open>results\<close> is what \<open>session.search\<close> answers for the track: its list of
  candidates, or \<open>None\<close> when the call raises.\<close>

definition search_better_version :: "track list option \<Rightarrow> track \<Rightarrow> track option" where
  "search_better_version results t =
     (case results of
        None \<Rightarrow> None
      | Some candidates \<Rightarrow> best_loop t None (quality_rank t) candidates)"

text \<open>
  In the words of the specification: among the candidates that are the same song,
  \<open>c\<close> is the first-seen one at the highest quality tier, and that tier strictly exceeds
  the rank \<open>br\<close>.
\<close>

definition wins :: "track \<Rightarrow> int \<Rightarrow> track list \<Rightarrow> track \<Rightarrow> bool" where
  "wins t br cs c \<longleftrightarrow>
     (\<exists>pre post. cs = pre @ c # post \<and> same_song t c \<and> br < quality_rank c
        \<and> (\<forall>d \<in> set pre. same_song t d \<longrightarrow> quality_rank d < quality_rank c)
        \<and> (\<forall>d \<in> set post. same_song t d \<longrightarrow> quality_rank d \<le> quality_rank c))"

datatype call = Search track | AddTrack int | RemoveTrack int

datatype swap_error = AddFail track track | RemoveFail track

text \<open>
  The remote service as \<open>process_tracks\<close> meets it. Each answer may depend on the calls
  made so far: the candidates of a search (\<open>None\<close> when it raises) and whether an
  \<open>add_track\<close> or a \<open>remove_track\<close> raises.
\<close>

record service =
  search_results :: "call list \<Rightarrow> track \<Rightarrow> track list option"
  add_fails :: "call list \<Rightarrow> int \<Rightarrow> bool"
  remove_fails :: "call list \<Rightarrow> int \<Rightarrow> bool"

text \<open>
  The state \<open>process_tracks\<close> works on: the identifiers in the remote favourites, the
  calls made, \<open>log_entries\<close>, \<open>errors\<close> and the two counters. The favourites list belongs
  to the service, not to the repository; following section 5 of the specification an
  add or a remove is atomic there: it takes effect, or it raises and changes nothing.
\<close>

record pstate =
  favorites :: "int set"
  calls :: "call list"
  log_entries :: "(track \<times> track) list"
  errors :: "swap_error list"
  improved :: nat
  skipped_top :: nat

text \<open>The body of \<open>for i, track in enumerate(tracks, 1)\<close>.\<close>

definition process_track :: "service \<Rightarrow> pstate \<Rightarrow> track \<Rightarrow> pstate" where
  "process_track svc st t =
     (if get_quality t \<in> set TOP_QUALITIES then st\<lparr>skipped_top := skipped_top st + 1\<rparr>
      else
        let results = search_results svc (calls st) t;
            st1 = st\<lparr>calls := calls st @ [Search t]\<rparr>
        in case search_better_version results t of
             None \<Rightarrow> st1
           | Some better \<Rightarrow>
               let failed = add_fails svc (calls st1) (tid better);
                   st2 = st1\<lparr>calls := calls st1 @ [AddTrack (tid better)]\<rparr>
               in if failed then st2\<lparr>errors := errors st2 @ [AddFail t better]\<rparr>
                  else
                    let st3 = st2\<lparr>favorites := insert (tid better) (favorites st2)\<rparr>;
                        failed' = remove_fails svc (calls st3) (tid t);
                        st4 = st3\<lparr>calls := calls st3 @ [RemoveTrack (tid t)]\<rparr>
                    in if failed' then st4\<lparr>errors := errors st4 @ [RemoveFail t]\<rparr>
                       else st4\<lparr>favorites := favorites st4 - {tid t},
                                log_entries := log_entries st4 @ [(t, better)],
                                improved := improved st4 + 1\<rparr>)"


section \<open>Example inputs\<close>

definition track_lossless :: track where
  "track_lossless =
     \<lparr>tid = 20, title = Some ''One'', artist = Some ''U2'', album = None,
      audio_quality = Some ''LOSSLESS''\<rparr>"

definition track_high_remaster :: track where
  "track_high_remaster =
     \<lparr>tid = 10, title = Some ''One (Remastered 2013)'', artist = Some ''U2'', album = None,
      audio_quality = Some ''HIGH''\<rparr>"

definition track_live :: track where
  "track_live =
     \<lparr>tid = 1, title = Some ''Live'', artist = Some ''Ab'', album = None,
      audio_quality = None\<rparr>"

definition track_1999 :: track where
  "track_1999 =
     \<lparr>tid = 2, title = Some ''1999'', artist = Some ''Ab'', album = None,
      audio_quality = None\<rparr>"

text \<open>A round that lists the given tracks and in which every removal succeeds.\<close>

definition all_removable :: "track list \<Rightarrow> round_env" where
  "all_removable tracks = \<lparr>listing = Some tracks, remove_ok = (\<lambda>i. True)\<rparr>"

text \<open>Candidates for an upgrade of \<open>track_high_remaster\<close>: another song at the top tier,
  and a second LOSSLESS copy of the same song, listed later.\<close>

definition track_other_max :: track where
  "track_other_max =
     \<lparr>tid = 30, title = Some ''Live'', artist = Some ''Ab'', album = None,
      audio_quality = Some ''HI_RES_LOSSLESS''\<rparr>"

definition track_lossless_later :: track where
  "track_lossless_later =
     \<lparr>tid = 21, title = Some ''One'', artist = Some ''U2'', album = None,
      audio_quality = Some ''LOSSLESS''\<rparr>"

text \<open>A HI_RES track and a HI_RES_LOSSLESS copy of the same song.\<close>

definition track_hi_res :: track where
  "track_hi_res =
     \<lparr>tid = 40, title = Some ''One'', artist = Some ''U2'', album = None,
      audio_quality = Some ''HI_RES''\<rparr>"

definition track_max :: track where
  "track_max =
     \<lparr>tid = 41, title = Some ''One'', artist = Some ''U2'', album = None,
      audio_quality = Some ''HI_RES_LOSSLESS''\<rparr>"

text \<open>A service whose every search answers with the one candidate, and whose adds and
  removes raise as the two flags say.\<close>

definition offering :: "track \<Rightarrow> bool \<Rightarrow> bool \<Rightarrow> service" where
  "offering candidate add_raises remove_raises =
     \<lparr>search_results = (\<lambda>history t. Some [candidate]),
      add_fails = (\<lambda>history i. add_raises),
      remove_fails = (\<lambda>history i. remove_raises)\<rparr>"

definition start_state :: pstate where
  "start_state =
     \<lparr>favorites = {10, 40}, calls = [], log_entries = [], errors = [], improved = 0,
      skipped_top = 0\<rparr>"

text \<open>A list that answers an empty page, then a page with one ghost entry, then empty
  pages only.\<close>

definition gap_session :: "nat \<Rightarrow> response" where
  "gap_session off = (if off = 100 then Page [None] else Page [])"

text \<open>
  A favourites list of 60000 entries, served in pages of 100: entry 0 is a ghost, entry
  \<open>j > 0\<close> is a track with identifier \<open>j\<close>. \<open>big_state k\<close> is the state of the loop
  after \<open>k\<close> pages of it.
\<close>

definition big_track :: "nat \<Rightarrow> track" where
  "big_track j =
     \<lparr>tid = int j, title = Some ''t'', artist = Some ''a'', album = None,
      audio_quality = None\<rparr>"

definition big_item :: "nat \<Rightarrow> track_data option" where
  "big_item j =
     (if j = 0 then None
      else Some \<lparr>data_id = Some (int j), data_quality = None, parsed = Some (big_track j)\<rparr>)"

definition big_library :: "nat \<Rightarrow> response" where
  "big_library off =
     (if off < 60000 then Page (map big_item [off ..< off + 100]) else Page [])"

definition big_state :: "nat \<Rightarrow> cstate" where
  "big_state k =
     \<lparr>all_tracks = map big_track [1 ..< 100 * k], seen_ids = int ` {1 ..< 100 * k},
      skipped_unavailable = 1, offset = 100 * k, consecutive_empty = 0\<rparr>"

section \<open>The example inputs, evaluated\<close>

lemma track_key_lossless: "track_key track_lossless = (''u2'', ''one'')"
  by code_simp

lemma track_key_high_remaster: "track_key track_high_remaster = (''u2'', ''one'')"
  by code_simp

lemma sort_key_lossless: "sort_key_track track_lossless = (- 3, 1, 0, 0, 0, 20)"
  by code_simp

lemma sort_key_high_remaster:
  "sort_key_track track_high_remaster = (- 2, - 2013, 0, 0, 0, 10)"
  by code_simp

lemma find_duplicates_example:
  "find_duplicates [track_high_remaster, track_lossless]
     = [((''u2'', ''one''), [track_lossless, track_high_remaster])]"
  by (simp add: find_duplicates_def group_tracks_def track_key_lossless
      track_key_high_remaster sort_key_lossless sort_key_high_remaster less_eq_prod_def)

lemma track_key_lossless_later: "track_key track_lossless_later = (''u2'', ''one'')"
  by code_simp

lemma sort_key_lossless_later:
  "sort_key_track track_lossless_later = (- 3, 1, 0, 0, 0, 21)"
  by code_simp

lemma find_duplicates_three:
  "find_duplicates [track_high_remaster, track_lossless_later, track_lossless]
     = [((''u2'', ''one''), [track_lossless, track_lossless_later, track_high_remaster])]"
  by (simp add: find_duplicates_def group_tracks_def track_key_lossless
      track_key_lossless_later track_key_high_remaster sort_key_lossless
      sort_key_lossless_later sort_key_high_remaster less_eq_prod_def)

lemma normalize_live: "normalize_text ''Live'' = []"
  by code_simp

lemma normalize_1999: "normalize_text ''1999'' = []"
  by code_simp

lemma normalize_ab: "normalize_text ''Ab'' = ''ab''"
  by code_simp

lemma sort_key_live: "sort_key_track track_live = (0, 1, 0, 0, 0, 1)"
  by code_simp

lemma sort_key_1999: "sort_key_track track_1999 = (0, 1, 0, 0, 0, 2)"
  by code_simp

lemma track_key_live: "track_key track_live = (''ab'', [])"
  by (simp add: track_key_def track_live_def or_empty_def normalize_live normalize_ab)

lemma track_key_1999: "track_key track_1999 = (''ab'', [])"
  by (simp add: track_key_def track_1999_def or_empty_def normalize_1999 normalize_ab)

lemma find_duplicates_noise:
  "find_duplicates [track_live, track_1999] = [((''ab'', []), [track_live, track_1999])]"
  by (simp add: find_duplicates_def group_tracks_def track_key_live track_key_1999
      sort_key_live sort_key_1999 less_eq_prod_def)

lemma round_noise:
  "remove_duplicates_round (all_removable [track_live, track_1999]) 1 empty_log
     = (1, \<lparr>removal_requests = [tid track_1999],
            all_removed = [(1, track_1999, track_live)], all_errors = []\<rparr>)"
  by (simp add: find_duplicates_noise remove_duplicates_round_def all_removable_def
      remove_group_def remove_extra_def empty_log_def)

section \<open>The normalizer\<close>

subsection \<open>Patterns that are substituted match no empty text\<close>

lemma run_ends_shorter: "e \<in> set (run_ends k s) \<Longrightarrow> length (snd e) < length s"
  by (induction s) (auto split: if_splits)

lemma ends_not_longer: "e \<in> set (ends r p) \<Longrightarrow> length (snd e) \<le> length (snd p)"
proof (induction r arbitrary: p e)
  case (Seq a b)
  then obtain m where "m \<in> set (ends a p)" "e \<in> set (ends b m)" by auto
  with Seq.IH show ?case by (meson le_trans)
next
  case (Plus k)
  then show ?case using run_ends_shorter [of e k "snd p"] by auto
next
  case (LazyStar k)
  then show ?case using run_ends_shorter [of e k "snd p"] by auto
qed (auto split: list.splits if_splits)

lemma ends_shorter:
  "\<not> nullable r \<Longrightarrow> e \<in> set (ends r p) \<Longrightarrow> length (snd e) < length (snd p)"
proof (induction r arbitrary: p e)
  case (Seq a b)
  then obtain m where m: "m \<in> set (ends a p)" "e \<in> set (ends b m)" by auto
  from Seq.prems(1) have "\<not> nullable a \<or> \<not> nullable b" by simp
  then show ?case
  proof
    assume "\<not> nullable a"
    then have "length (snd m) < length (snd p)" using Seq.IH(1) m(1) by blast
    with ends_not_longer [OF m(2)] show ?thesis by simp
  next
    assume "\<not> nullable b"
    then have "length (snd e) < length (snd m)" using Seq.IH(2) m(2) by blast
    with ends_not_longer [OF m(1)] show ?thesis by simp
  qed
next
  case (Plus k)
  then show ?case using run_ends_shorter [of e k "snd p"] by auto
qed (auto split: list.splits if_splits)

lemma match_at_positive: "\<not> nullable r \<Longrightarrow> match_at r p \<noteq> Some 0"
proof
  assume n: "\<not> nullable r" and "match_at r p = Some 0"
  then obtain e es where e: "ends r p = e # es" "length (snd p) - length (snd e) = 0"
    by (auto simp: match_at_def split: list.splits)
  then have "e \<in> set (ends r p)" by simp
  from ends_shorter [OF n this] e(2) show False by simp
qed

lemma substituted_patterns_not_nullable:
  "\<not> nullable PAREN_RE" "\<not> nullable BRACKET_RE" "\<not> nullable NOISE_RE"
  "\<not> nullable SYMBOL_RE"
  by (simp_all add: PAREN_RE_def BRACKET_RE_def NOISE_RE_def SYMBOL_RE_def NOISE_PATTERNS_def
      seqs_def alts_def word_i_def str_i_def)

subsection \<open>Characters, substitution, splitting and joining\<close>

lemma plain_char_not_space: "plain_char c \<Longrightarrow> \<not> is_space c"
  by (auto simp: plain_char_def is_lower_def is_digit_def is_space_def Let_def)

lemma plain_char_lower: "plain_char c \<Longrightarrow> lower_char c = c"
  by (auto simp: plain_char_def is_lower_def is_digit_def lower_char_def is_upper_def Let_def)

lemma plain_char_not_bracket:
  "plain_char c \<Longrightarrow> c \<noteq> CHR ''('' \<and> c \<noteq> CHR ''[''"
  by (auto simp: plain_char_def is_lower_def is_digit_def Let_def)

lemma plain_char_not_symbol: "plain_char c \<Longrightarrow> \<not> cmatch CNotLowerAlnumSpace c"
  by (auto simp: plain_char_def)

lemma space_facts:
  "is_space CHR '' ''" "lower_char CHR '' '' = CHR '' ''"
  "\<not> cmatch CNotLowerAlnumSpace CHR '' ''"
  by (simp_all add: is_space_def lower_char_def is_upper_def)

lemma sub_from_no_match:
  "search_from r prev s = None \<Longrightarrow> sub_from r rep prev 0 s = s"
  by (induction s arbitrary: prev) (auto split: option.splits)

lemma match_at_first_char:
  "s = [] \<or> \<not> cmatch k (hd s) \<Longrightarrow>
   match_at (Sym k) (prev, s) = None \<and> match_at (Seq (Sym k) r) (prev, s) = None"
  by (cases s) (auto simp: match_at_def)

lemma search_from_first_char:
  "\<forall>c \<in> set s. \<not> cmatch k c \<Longrightarrow>
   search_from (Sym k) prev s = None \<and> search_from (Seq (Sym k) r) prev s = None"
proof (induction s arbitrary: prev)
  case Nil
  show ?case using match_at_first_char [of "[]" k prev r] by simp
next
  case (Cons c cs)
  then have "\<not> cmatch k c" by simp
  then have "match_at (Sym k) (prev, c # cs) = None"
    "match_at (Seq (Sym k) r) (prev, c # cs) = None"
    using match_at_first_char [of "c # cs" k prev r] by simp_all
  with Cons show ?case by simp
qed

lemma sub_from_sym:
  "sub_from (Sym k) rep prev 0 s = concat (map (\<lambda>c. if cmatch k c then rep else [c]) s)"
  by (induction s arbitrary: prev) (auto simp: match_at_def)

lemma replaced_chars:
  "c \<in> set (concat (map (\<lambda>d. if P d then rep else [d]) s)) \<Longrightarrow>
   c \<in> set rep \<or> (c \<in> set s \<and> \<not> P c)"
  by (induction s) (auto split: if_splits)

lemma sub_symbol_chars:
  assumes "c \<in> set (sub SYMBOL_RE '' '' s)"
  shows "plain_char c \<or> is_space c"
proof -
  from assms
  have "c \<in> set (concat (map (\<lambda>d. if cmatch CNotLowerAlnumSpace d then '' '' else [d]) s))"
    unfolding sub_def SYMBOL_RE_def sub_from_sym .
  then have "c \<in> set '' '' \<or> (c \<in> set s \<and> \<not> cmatch CNotLowerAlnumSpace c)"
    by (rule replaced_chars)
  then show ?thesis by (auto simp: plain_char_def space_facts)
qed

lemma split_acc_words:
  "w \<in> set (split_acc acc s) \<Longrightarrow>
   w \<noteq> [] \<and> set w \<subseteq> set acc \<union> {c \<in> set s. \<not> is_space c}"
proof (induction s arbitrary: acc)
  case Nil
  then show ?case by (auto split: if_splits)
next
  case (Cons a s)
  show ?case
  proof (cases "is_space a")
    case True
    then have "(w = acc \<and> acc \<noteq> []) \<or> w \<in> set (split_acc [] s)"
      using Cons.prems by (auto split: if_splits)
    then show ?thesis using Cons.IH [of "[]"] by auto
  next
    case False
    then have "w \<in> set (split_acc (acc @ [a]) s)" using Cons.prems by simp
    from Cons.IH [OF this] show ?thesis using False by auto
  qed
qed

lemma split_acc_run:
  "\<forall>c \<in> set w. \<not> is_space c \<Longrightarrow> split_acc acc (w @ s) = split_acc (acc @ w) s"
  by (induction w arbitrary: acc) auto

lemma split_join:
  "plain_words ws \<Longrightarrow> split_ws (join '' '' ws) = ws"
proof (induction ws)
  case Nil
  show ?case by (simp add: split_ws_def)
next
  case (Cons w ws)
  note prems = Cons.prems and IH = Cons.IH
  from prems have w: "w \<noteq> []" "\<forall>c \<in> set w. \<not> is_space c"
    by (auto simp: plain_words_def plain_char_not_space)
  show ?case
  proof (cases ws)
    case Nil
    then show ?thesis using w split_acc_run [of w "[]" "[]"] by (simp add: split_ws_def)
  next
    case (Cons v vs)
    have "plain_words ws" using prems by (simp add: plain_words_def)
    then have ih: "split_acc [] (join '' '' ws) = ws"
      using IH by (simp add: split_ws_def)
    have "split_ws (join '' '' (w # ws)) = split_acc w (CHR '' '' # join '' '' ws)"
      using split_acc_run [OF w(2), of "[]"] Cons by (simp add: split_ws_def)
    also have "\<dots> = w # ws" using w(1) ih by (simp add: space_facts)
    finally show ?thesis .
  qed
qed

lemma join_chars:
  "c \<in> set (join sep ws) \<Longrightarrow> c \<in> set sep \<or> (\<exists>w \<in> set ws. c \<in> set w)"
  by (induction sep ws rule: join.induct) auto

subsection \<open>Where a noise word can begin\<close>

lemma upper_not_space: "is_upper c \<Longrightarrow> \<not> is_space c"
  by (auto simp: is_upper_def is_space_def Let_def)

lemma starts_plain_char:
  assumes "starts_plain k" and "cmatch k c"
  shows "\<not> is_space c"
proof (cases k)
  case (CCharI x)
  with assms have x: "plain_char x" and e: "lower_char c = lower_char x"
    by (simp_all add: starts_plain_def)
  show ?thesis
  proof (cases "is_upper c")
    case True
    then show ?thesis by (rule upper_not_space)
  next
    case False
    then have "c = x" using e plain_char_lower [OF x] by (simp add: lower_char_def)
    with x show ?thesis by (simp add: plain_char_not_space)
  qed
next
  case CDigit
  with assms have "plain_char c" by (simp add: plain_char_def)
  then show ?thesis by (rule plain_char_not_space)
qed (use assms in \<open>simp_all add: starts_plain_def\<close>)

lemma zero_width_ends: "zero_width r \<Longrightarrow> e \<in> set (ends r p) \<Longrightarrow> e = p"
proof (induction r arbitrary: p e)
  case (Seq a b)
  then obtain m where m: "m \<in> set (ends a p)" "e \<in> set (ends b m)" by auto
  from Seq.prems(1) have z: "zero_width a" "zero_width b" by simp_all
  from Seq.IH(1) [OF z(1) m(1)] Seq.IH(2) [OF z(2) m(2)] show ?case by simp
qed (auto split: if_splits)

lemma run_ends_first: "e \<in> set (run_ends k s) \<Longrightarrow> s \<noteq> [] \<and> cmatch k (hd s)"
  by (cases s) (auto split: if_splits)

lemma starts_with_plain_ends:
  "starts_with_plain r \<Longrightarrow> e \<in> set (ends r p) \<Longrightarrow> snd p \<noteq> [] \<and> \<not> is_space (hd (snd p))"
proof (induction r arbitrary: p e)
  case (Sym k)
  show ?case
  proof (cases "snd p")
    case Nil
    with Sym show ?thesis by simp
  next
    case (Cons c cs)
    with Sym have "cmatch k c" "starts_plain k" by (auto split: if_splits)
    then show ?thesis using starts_plain_char Cons by auto
  qed
next
  case (Seq a b)
  from Seq.prems(2) obtain m where m: "m \<in> set (ends a p)" "e \<in> set (ends b m)" by auto
  from Seq.prems(1)
  have "starts_with_plain a \<or> (zero_width a \<and> starts_with_plain b)" by simp
  then show ?case
  proof (elim disjE conjE)
    assume "starts_with_plain a"
    from Seq.IH(1) [OF this m(1)] show ?thesis .
  next
    assume "zero_width a" "starts_with_plain b"
    then have "m = p" "snd m \<noteq> [] \<and> \<not> is_space (hd (snd m))"
      using zero_width_ends m Seq.IH(2) by blast+
    then show ?thesis by simp
  qed
next
  case (Plus k)
  then show ?case using run_ends_first [of e k "snd p"] by (auto simp: starts_plain_char)
qed auto

lemma noise_starts_with_plain: "starts_with_plain NOISE_RE"
  by (simp add: NOISE_RE_def NOISE_PATTERNS_def seqs_def alts_def word_i_def str_i_def
      starts_plain_def plain_char_def is_lower_def is_digit_def)

lemma noise_match_first:
  assumes "match_at NOISE_RE p = Some n"
  shows "snd p \<noteq> [] \<and> \<not> is_space (hd (snd p))"
proof -
  from assms obtain e where "e \<in> set (ends NOISE_RE p)"
    by (auto simp: match_at_def split: list.splits)
  with noise_starts_with_plain show ?thesis by (rule starts_with_plain_ends)
qed

subsection \<open>Counting the characters that are not whitespace\<close>

lemma letters_simps:
  "letters [] = 0"
  "letters (c # cs) = (if is_space c then letters cs else Suc (letters cs))"
  "letters (a @ b) = letters a + letters b"
  by (simp_all add: letters_def)

lemma letters_drop: "letters (drop k s) \<le> letters s"
proof -
  have "letters s = letters (take k s) + letters (drop k s)"
    by (metis append_take_drop_id letters_simps(3))
  then show ?thesis by simp
qed

lemma letters_sub_from_le:
  "letters (sub_from r '' '' prev k s) \<le> letters (drop k s)"
proof (induction s arbitrary: prev k)
  case Nil
  show ?case by simp
next
  case (Cons c cs)
  show ?case
  proof (cases k)
    case (Suc j)
    then show ?thesis using Cons.IH [of "Some c" j] by simp
  next
    case 0
    show ?thesis
    proof (cases "match_at r (prev, c # cs)")
      case None
      then show ?thesis using 0 Cons.IH [of "Some c" 0] by (simp add: letters_simps)
    next
      case (Some n)
      show ?thesis
      proof (cases n)
        case 0
        with Some \<open>k = 0\<close> show ?thesis using Cons.IH [of "Some c" 0] by (simp add: letters_simps)
      next
        case (Suc j)
        have "letters (sub_from r '' '' (Some c) j cs) \<le> letters cs"
          using Cons.IH [of "Some c" j] letters_drop [of j cs] by simp
        with Some Suc \<open>k = 0\<close> show ?thesis
          by (simp add: letters_simps space_facts)
      qed
    qed
  qed
qed

lemma letters_sub_from_less:
  assumes first: "\<And>p n. match_at r p = Some n \<Longrightarrow> snd p \<noteq> [] \<and> \<not> is_space (hd (snd p))"
    and pos: "\<And>p. match_at r p \<noteq> Some 0"
  shows "search_from r prev s \<noteq> None \<Longrightarrow> letters (sub_from r '' '' prev 0 s) < letters s"
proof (induction s arbitrary: prev)
  case Nil
  then obtain n where "match_at r (prev, []) = Some n" by (auto split: option.splits)
  from first [OF this] show ?case by simp
next
  case (Cons c cs)
  show ?case
  proof (cases "match_at r (prev, c # cs)")
    case None
    with Cons.prems have "search_from r (Some c) cs \<noteq> None" by simp
    from Cons.IH [OF this] None show ?thesis by (simp add: letters_simps)
  next
    case (Some n)
    from first [OF Some] have c: "\<not> is_space c" by simp
    from pos [of "(prev, c # cs)"] Some obtain j where n: "n = Suc j" by (cases n) auto
    have "letters (sub_from r '' '' (Some c) j cs) \<le> letters cs"
      using letters_sub_from_le [of r "Some c" j cs] letters_drop [of j cs] by simp
    with Some n c show ?thesis by (simp add: letters_simps space_facts)
  qed
qed

lemma letters_sub_symbol: "letters (sub SYMBOL_RE '' '' s) \<le> letters s"
  using letters_sub_from_le [of SYMBOL_RE None 0 s] by (simp add: sub_def)

lemma letters_split_acc:
  "\<forall>c \<in> set acc. \<not> is_space c \<Longrightarrow>
   letters (join '' '' (split_acc acc s)) = length acc + letters s"
proof (induction s arbitrary: acc)
  case Nil
  then show ?case by (simp add: letters_def)
next
  case (Cons c cs)
  show ?case
  proof (cases "is_space c")
    case False
    with Cons show ?thesis by (simp add: letters_simps)
  next
    case True
    have j: "letters (join '' '' (w # ws)) = letters w + letters (join '' '' ws)" for w ws
      by (cases ws) (simp_all add: letters_simps space_facts)
    have a: "letters acc = length acc" using Cons.prems by (simp add: letters_def)
    show ?thesis using True Cons.IH [of "[]"] a by (simp add: letters_simps j)
  qed
qed

lemma letters_normalized: "letters (join '' '' (split_ws s)) = letters s"
  using letters_split_acc [of "[]" s] by (simp add: split_ws_def)

subsection \<open>Normalizing twice\<close>

lemma normalize_text_shape:
  "\<exists>ws. plain_words ws \<and> normalize_text x = join '' '' ws"
proof -
  let ?t5 = "sub SYMBOL_RE '' '' (sub NOISE_RE '' '' (sub BRACKET_RE '' ''
              (sub PAREN_RE '' '' (lower x))))"
  have "plain_words (split_ws ?t5)"
    unfolding plain_words_def split_ws_def
  proof (intro ballI conjI)
    fix w assume w: "w \<in> set (split_acc [] ?t5)"
    from split_acc_words [OF w] show "w \<noteq> []" by simp
    fix c assume "c \<in> set w"
    with split_acc_words [OF w] have "c \<in> set ?t5" "\<not> is_space c" by auto
    with sub_symbol_chars show "plain_char c" by blast
  qed
  moreover have "normalize_text x = join '' '' (split_ws ?t5)"
    by (simp add: normalize_text_def)
  ultimately show ?thesis by blast
qed

lemma normalize_text_joined:
  assumes ws: "plain_words ws" and noise: "search NOISE_RE (join '' '' ws) = None"
  shows "normalize_text (join '' '' ws) = join '' '' ws"
proof -
  let ?y = "join '' '' ws"
  have chars: "plain_char c \<or> c = CHR '' ''" if "c \<in> set ?y" for c
    using join_chars [OF that] ws by (auto simp: plain_words_def)
  have 1: "lower ?y = ?y"
    unfolding lower_def
    by (rule map_idI) (use chars plain_char_lower space_facts in auto)
  have "\<forall>c \<in> set ?y. \<not> cmatch (CChar CHR ''('') c"
    using chars plain_char_not_bracket by auto
  then have "search_from PAREN_RE None ?y = None"
    using search_from_first_char by (simp add: PAREN_RE_def seqs_def)
  then have 2: "sub PAREN_RE '' '' ?y = ?y"
    by (simp add: sub_def sub_from_no_match)
  have "\<forall>c \<in> set ?y. \<not> cmatch (CChar CHR ''['') c"
    using chars plain_char_not_bracket by auto
  then have "search_from BRACKET_RE None ?y = None"
    using search_from_first_char by (simp add: BRACKET_RE_def seqs_def)
  then have 3: "sub BRACKET_RE '' '' ?y = ?y"
    by (simp add: sub_def sub_from_no_match)
  have 4: "sub NOISE_RE '' '' ?y = ?y"
    using noise by (simp add: sub_def search_def sub_from_no_match)
  have "\<forall>c \<in> set ?y. \<not> cmatch CNotLowerAlnumSpace c"
    using chars plain_char_not_symbol space_facts by auto
  then have "search_from SYMBOL_RE None ?y = None"
    using search_from_first_char by (simp add: SYMBOL_RE_def)
  then have 5: "sub SYMBOL_RE '' '' ?y = ?y"
    by (simp add: sub_def sub_from_no_match)
  show ?thesis
    by (simp add: normalize_text_def 1 2 3 4 5 split_join [OF ws])
qed

lemma normalize_text_changes:
  assumes ws: "plain_words ws" and noise: "search NOISE_RE (join '' '' ws) \<noteq> None"
  shows "normalize_text (join '' '' ws) \<noteq> join '' '' ws"
proof -
  let ?y = "join '' '' ws"
  have chars: "plain_char c \<or> c = CHR '' ''" if "c \<in> set ?y" for c
    using join_chars [OF that] ws by (auto simp: plain_words_def)
  have 1: "lower ?y = ?y"
    unfolding lower_def
    by (rule map_idI) (use chars plain_char_lower space_facts in auto)
  have "\<forall>c \<in> set ?y. \<not> cmatch (CChar CHR ''('') c"
    using chars plain_char_not_bracket by auto
  then have "search_from PAREN_RE None ?y = None"
    using search_from_first_char by (simp add: PAREN_RE_def seqs_def)
  then have 2: "sub PAREN_RE '' '' ?y = ?y"
    by (simp add: sub_def sub_from_no_match)
  have "\<forall>c \<in> set ?y. \<not> cmatch (CChar CHR ''['') c"
    using chars plain_char_not_bracket by auto
  then have "search_from BRACKET_RE None ?y = None"
    using search_from_first_char by (simp add: BRACKET_RE_def seqs_def)
  then have 3: "sub BRACKET_RE '' '' ?y = ?y"
    by (simp add: sub_def sub_from_no_match)
  have "letters (sub NOISE_RE '' '' ?y) < letters ?y"
    unfolding sub_def
    by (rule letters_sub_from_less)
       (use noise noise_match_first match_at_positive substituted_patterns_not_nullable
         in \<open>auto simp: search_def\<close>)
  then have "letters (normalize_text ?y) < letters ?y"
    using letters_sub_symbol [of "sub NOISE_RE '' '' ?y"]
    by (simp add: normalize_text_def 1 2 3 letters_normalized)
  then show ?thesis by auto
qed

lemma normalize_live_underscore: "normalize_text ''live_'' = ''live''"
  by code_simp

lemma normalize_live_lower: "normalize_text ''live'' = []"
  by code_simp

lemma no_noise_in_one: "search NOISE_RE ''one'' = None"
  by code_simp

lemma normalize_remastered_title: "normalize_text ''One (Remastered 2013)'' = ''one''"
  using track_key_high_remaster
  by (simp add: track_key_def track_high_remaster_def or_empty_def)

text \<open>
  Claim C3 as stated fails on the code: noise words are taken out before symbols are
  replaced by spaces, so a noise word that the first pass leaves glued to a symbol is
  laid bare by it and taken out by the second pass. "live_" normalizes to "live", and
  "live" to the empty text.
\<close>

theorem normalize_not_idempotent:
  "normalize_text (normalize_text ''live_'') \<noteq> normalize_text ''live_''"
  by (simp add: normalize_live_underscore normalize_live_lower)

text \<open>
  Claim C3, amended. Normalizing is idempotent at exactly the texts whose normalized
  form holds no noise token: \<open>normalize(normalize(x)) = normalize(x)\<close> if and only if
  \<open>NOISE_RE\<close> has no match in \<open>normalize(x)\<close>.
\<close>

theorem normalize_idempotent_iff_no_noise:
  "normalize_text (normalize_text x) = normalize_text x
   \<longleftrightarrow> search NOISE_RE (normalize_text x) = None"
proof -
  obtain ws where "plain_words ws" "normalize_text x = join '' '' ws"
    using normalize_text_shape by blast
  then show ?thesis
    using normalize_text_joined [of ws] normalize_text_changes [of ws] by metis
qed

theorem normalize_idempotent_iff_no_noise_witness:
  "search NOISE_RE (normalize_text ''One (Remastered 2013)'') = None
   \<and> normalize_text (normalize_text ''One (Remastered 2013)'')
       = normalize_text ''One (Remastered 2013)''"
proof -
  have n: "search NOISE_RE (normalize_text ''One (Remastered 2013)'') = None"
    by (simp add: normalize_remastered_title no_noise_in_one)
  with normalize_idempotent_iff_no_noise [of "''One (Remastered 2013)''"]
  show ?thesis by blast
qed

section \<open>The order of a group\<close>

lemma key_le_iff:
  "((- q1, - r1, - e1, - s1, - a1, i1) \<le> (- q2, - r2, - e2, - s2, - a2, (i2::int)))
   = ((q2::int, r2::int, e2::int, s2::int, a2::int) < (q1, r1, e1, s1, a1) \<or> ((q2, r2, e2, s2, a2) = (q1, r1, e1, s1, a1) \<and> i1 \<le> i2))"
  by (auto simp: less_eq_prod_def less_prod_def)

lemma quality_rank_tier: "quality_rank t = tier_rank (map_option upper (audio_quality t))"
  by (cases "audio_quality t")
     (simp_all add: quality_rank_def get_quality_def QUALITY_RANK_def tier_rank_def)

lemma tier_rank_unknown_lowest:
  "0 \<le> tier_rank q
   \<and> (tier_rank q = 0 \<longleftrightarrow>
        q \<notin> {Some ''HI_RES_LOSSLESS'', Some ''HI_RES'', Some ''LOSSLESS'', Some ''HIGH'',
              Some ''LOW''})"
  by (simp add: tier_rank_def)

lemma remaster_year_score:
  "remaster_year t = remaster_score (or_empty (title t) @ '' '' @ or_empty (album t))"
  by (simp add: remaster_year_def remaster_score_def tag_def)

lemma sort_key_track_eq:
  "sort_key_track t =
     (case composite_key t of (q, r, e, s, a) \<Rightarrow> (- q, - r, - e, - s, - a, tid t))"
  by (simp add: sort_key_track_def composite_key_def version_priority_def Let_def
      quality_rank_tier remaster_year_score marker_score_def tag_def)

lemma sort_key_track_le_iff:
  "sort_key_track h \<le> sort_key_track t \<longleftrightarrow>
     composite_key t < composite_key h \<or> (composite_key t = composite_key h \<and> tid h \<le> tid t)"
proof -
  obtain q1 r1 e1 s1 a1 where h: "composite_key h = (q1, r1, e1, s1, a1)"
    by (metis prod_cases5)
  obtain q2 r2 e2 s2 a2 where t: "composite_key t = (q2, r2, e2, s2, a2)"
    by (metis prod_cases5)
  show ?thesis
    unfolding sort_key_track_eq h t by (simp only: prod.case key_le_iff)
qed

lemma composite_key_quality:
  "composite_key t < composite_key h \<or> composite_key t = composite_key h \<Longrightarrow> quality_rank t \<le> quality_rank h"
  by (auto simp: composite_key_def less_prod_def quality_rank_tier Let_def)

lemma sort_key_track_inj: "sort_key_track a = sort_key_track b \<Longrightarrow> tid a = tid b"
  by (simp add: sort_key_track_eq split: prod.splits)

lemma map_of_groups_append:
  "map_of (groups_append k t g) =
     (map_of g)(k \<mapsto> (case map_of g k of None \<Rightarrow> [t] | Some v \<Rightarrow> v @ [t]))"
  by (induction g) (auto simp: fun_eq_iff)

lemma keys_groups_append:
  "map fst (groups_append k t g) = (if k \<in> fst ` set g then map fst g else map fst g @ [k])"
proof (induction g)
  case Nil
  show ?case by simp
next
  case (Cons kv g)
  obtain k' v where kv: "kv = (k', v)" by (cases kv)
  show ?case
  proof (cases "k' = k")
    case True
    then show ?thesis by (simp add: kv)
  next
    case False
    then show ?thesis using Cons.IH by (simp add: kv)
  qed
qed

lemma group_tracks_snoc:
  "group_tracks (ts @ [t]) = groups_append (track_key t) t (group_tracks ts)"
  by (simp add: group_tracks_def)

lemma distinct_group_tracks: "distinct (map fst (group_tracks ts))"
proof (induction ts rule: rev_induct)
  case Nil
  show ?case by (simp add: group_tracks_def)
next
  case (snoc t ts)
  then show ?case by (simp add: group_tracks_snoc keys_groups_append)
qed

lemma map_of_group_tracks:
  "map_of (group_tracks ts) k =
     (if filter (\<lambda>t. track_key t = k) ts = [] then None
      else Some (filter (\<lambda>t. track_key t = k) ts))"
proof (induction ts rule: rev_induct)
  case Nil
  show ?case by (simp add: group_tracks_def)
next
  case (snoc t ts)
  show ?case
  proof (cases "track_key t = k")
    case True
    then show ?thesis
      using snoc.IH by (simp add: group_tracks_snoc map_of_groups_append)
  next
    case False
    then show ?thesis
      using snoc.IH by (simp add: group_tracks_snoc map_of_groups_append)
  qed
qed

lemma group_tracks_mem:
  assumes "(k, v) \<in> set (group_tracks ts)"
  shows "v = filter (\<lambda>t. track_key t = k) ts"
proof -
  have "map_of (group_tracks ts) k = Some v"
    using assms distinct_group_tracks by simp
  then show ?thesis by (simp add: map_of_group_tracks split: if_splits)
qed

lemma find_duplicates_mem:
  assumes "(k, g) \<in> set (find_duplicates ts)"
  shows "g = sort_key sort_key_track (filter (\<lambda>t. track_key t = k) ts)
         \<and> 1 < length (filter (\<lambda>t. track_key t = k) ts)"
  using assms by (auto simp: find_duplicates_def dest: group_tracks_mem)

lemma find_duplicates_complete:
  assumes "2 \<le> length (filter (\<lambda>t. track_key t = k) ts)"
  shows "(k, sort_key sort_key_track (filter (\<lambda>t. track_key t = k) ts))
           \<in> set (find_duplicates ts)"
proof -
  let ?v = "filter (\<lambda>t. track_key t = k) ts"
  from assms have "?v \<noteq> []" by auto
  then have "map_of (group_tracks ts) k = Some ?v" by (simp add: map_of_group_tracks)
  then have "(k, ?v) \<in> set (group_tracks ts)" by (rule map_of_SomeD)
  moreover have "1 < length ?v" using assms by simp
  ultimately have "(k, ?v) \<in> set (filter (\<lambda>(k, v). 1 < length v) (group_tracks ts))"
    by simp
  then have "(\<lambda>(k, v). (k, sort_key sort_key_track v)) (k, ?v)
      \<in> set (find_duplicates ts)"
    unfolding find_duplicates_def set_map by (rule imageI)
  then show ?thesis by simp
qed

lemma distinct_find_duplicates: "distinct (map fst (find_duplicates ts))"
proof -
  have "map fst (find_duplicates ts)
      = map fst (filter (\<lambda>(k, v). 1 < length v) (group_tracks ts))"
    by (simp add: find_duplicates_def case_prod_unfold comp_def)
  then show ?thesis using distinct_group_tracks by (simp add: distinct_map_filter)
qed

lemma hd_sort_key_least:
  assumes "t \<in> set v"
  shows "f (hd (sort_key f v)) \<le> f t"
proof -
  have s: "sorted (map f (sort_key f v))" by (rule sorted_sort_key)
  have m: "t \<in> set (sort_key f v)" using assms by simp
  then obtain x xs where e: "sort_key f v = x # xs" by (cases "sort_key f v") auto
  with s m show ?thesis by auto
qed

subsection \<open>The remaster score\<close>

lemma search_from_match:
  "search_from r prev s = Some m \<Longrightarrow> \<exists>p n. match_at r p = Some n \<and> m = take n (snd p)"
proof (induction s arbitrary: prev)
  case Nil
  then show ?case by (auto split: option.splits intro: exI [of _ "(prev, [])"])
next
  case (Cons c cs)
  show ?case
  proof (cases "match_at r (prev, c # cs)")
    case None
    with Cons show ?thesis by simp
  next
    case (Some n)
    with Cons.prems have "m = take n (snd (prev, c # cs))" by simp
    with Some show ?thesis by blast
  qed
qed

lemma digit_val_range: "is_digit c \<Longrightarrow> 0 \<le> digit_val c \<and> digit_val c \<le> 9"
  by (auto simp: is_digit_def digit_val_def Let_def)

lemma year_ends:
  assumes "e \<in> set (ends RE_YEAR p)"
  shows "\<exists>c d rest. (snd p = CHR ''1'' # CHR ''9'' # c # d # rest
                      \<or> snd p = CHR ''2'' # CHR ''0'' # c # d # rest)
           \<and> is_digit c \<and> is_digit d \<and> snd e = rest"
  using assms
  by (cases p)
     (auto simp: RE_YEAR_def seqs_def str_c_def split: list.splits if_splits)

lemma year_match:
  assumes "match_at RE_YEAR p = Some n"
  shows "length (take n (snd p)) = 4
       \<and> 1900 \<le> int_of_digits (take n (snd p)) \<and> int_of_digits (take n (snd p)) \<le> 2099"
proof -
  from assms obtain e es where e: "ends RE_YEAR p = e # es"
    and n: "n = length (snd p) - length (snd e)"
    by (auto simp: match_at_def split: list.splits)
  then have "e \<in> set (ends RE_YEAR p)" by simp
  from year_ends [OF this] obtain c d rest where
    s: "snd p = CHR ''1'' # CHR ''9'' # c # d # rest
        \<or> snd p = CHR ''2'' # CHR ''0'' # c # d # rest"
    and cd: "is_digit c" "is_digit d" and r: "snd e = rest" by blast
  from s r n have n4: "n = 4" by auto
  from s show ?thesis
    using digit_val_range [OF cd(1)] digit_val_range [OF cd(2)]
    by (auto simp: n4 int_of_digits_def digit_val_def)
qed

lemma remaster_score_cases:
  "(remaster_score combined = - 1 \<longleftrightarrow> \<not> found RE_REMASTER combined)
   \<and> (found RE_REMASTER combined \<and> search RE_YEAR combined = None \<longrightarrow> remaster_score combined = 0)
   \<and> (\<forall>m. found RE_REMASTER combined \<and> search RE_YEAR combined = Some m \<longrightarrow>
          remaster_score combined = int_of_digits m \<and> length m = 4
          \<and> 1900 \<le> remaster_score combined \<and> remaster_score combined \<le> 2099)"
proof -
  have y: "length m = 4 \<and> 1900 \<le> int_of_digits m \<and> int_of_digits m \<le> 2099"
    if "search RE_YEAR combined = Some m" for m
    using that search_from_match [of RE_YEAR None combined m] year_match
    by (auto simp: search_def)
  show ?thesis
    using y by (auto simp: remaster_score_def split: option.splits)
qed

subsection \<open>The keeper\<close>

text \<open>
  Claim C1. Every normalized (artist, title) key that two or more tracks of the input
  share has a group in the result of \<open>find_duplicates\<close>, and no key has two. Every group
  of the result has two or more tracks, holds exactly the tracks of the input with the
  group's key, and has at position 0 a track that is greatest under the composite key
  (quality tier rank, remaster score, explicit/clean, stereo/mono, album/single
  version, the last four read from the combined title and album text): every track of
  the group has a strictly smaller composite key, or the same composite key and an
  identifier that is not smaller. In particular no track of the group has a higher
  quality tier than the keeper, whatever the later components say. The program's
  quality rank is the tier rank of the upper-cased label, where an unknown quality
  ranks 0 and every known tier ranks higher. The program's remaster score is that of
  the combined title and album text: -1 exactly when the text holds no remaster
  marker, 0 when it holds a marker and no year, and otherwise the number read from
  the first match of the year pattern, four digits between 1900 and 2099.
\<close>

theorem keeper_is_greatest:
  "(\<forall>k. 2 \<le> length (filter (\<lambda>t. track_key t = k) tracks)
        \<longrightarrow> (\<exists>g. (k, g) \<in> set (find_duplicates tracks)))
   \<and> distinct (map fst (find_duplicates tracks))
   \<and> (\<forall>k g. (k, g) \<in> set (find_duplicates tracks) \<longrightarrow>
         2 \<le> length g
         \<and> mset g = mset (filter (\<lambda>t. track_key t = k) tracks)
         \<and> (\<forall>t \<in> set g.
              composite_key t < composite_key (hd g)
              \<or> (composite_key t = composite_key (hd g) \<and> tid (hd g) \<le> tid t))
         \<and> (\<forall>t \<in> set g. quality_rank t \<le> quality_rank (hd g)))
   \<and> (\<forall>t. quality_rank t = tier_rank (map_option upper (audio_quality t)))
   \<and> (\<forall>q. 0 \<le> tier_rank q
         \<and> (tier_rank q = 0 \<longleftrightarrow>
              q \<notin> {Some ''HI_RES_LOSSLESS'', Some ''HI_RES'', Some ''LOSSLESS'',
                    Some ''HIGH'', Some ''LOW''}))
   \<and> (\<forall>t. remaster_year t
            = remaster_score (or_empty (title t) @ '' '' @ or_empty (album t)))
   \<and> (\<forall>combined.
         (remaster_score combined = - 1 \<longleftrightarrow> \<not> found RE_REMASTER combined)
         \<and> (found RE_REMASTER combined \<and> search RE_YEAR combined = None
              \<longrightarrow> remaster_score combined = 0)
         \<and> (\<forall>m. found RE_REMASTER combined \<and> search RE_YEAR combined = Some m
              \<longrightarrow> remaster_score combined = int_of_digits m \<and> length m = 4
                 \<and> 1900 \<le> remaster_score combined \<and> remaster_score combined \<le> 2099))"
proof -
  have complete: "\<exists>g. (k, g) \<in> set (find_duplicates tracks)"
    if "2 \<le> length (filter (\<lambda>t. track_key t = k) tracks)" for k
    using find_duplicates_complete [OF that] by blast
  have group: "2 \<le> length g
         \<and> mset g = mset (filter (\<lambda>t. track_key t = k) tracks)
         \<and> (\<forall>t \<in> set g.
              composite_key t < composite_key (hd g)
              \<or> (composite_key t = composite_key (hd g) \<and> tid (hd g) \<le> tid t))
         \<and> (\<forall>t \<in> set g. quality_rank t \<le> quality_rank (hd g))"
    if mem: "(k, g) \<in> set (find_duplicates tracks)" for k g
  proof -
    let ?v = "filter (\<lambda>t. track_key t = k) tracks"
    from find_duplicates_mem [OF mem]
    have g: "g = sort_key sort_key_track ?v" and len: "1 < length ?v" by simp_all
    have best: "composite_key t < composite_key (hd g)
              \<or> (composite_key t = composite_key (hd g) \<and> tid (hd g) \<le> tid t)"
      if "t \<in> set g" for t
    proof -
      from that have "t \<in> set ?v" by (simp add: g)
      then have "sort_key_track (hd g) \<le> sort_key_track t"
        unfolding g by (rule hd_sort_key_least)
      then show ?thesis by (simp add: sort_key_track_le_iff)
    qed
    have "2 \<le> length g" using len by (simp add: g)
    moreover have "mset g = mset ?v" by (simp add: g)
    moreover have "\<forall>t \<in> set g. quality_rank t \<le> quality_rank (hd g)"
      using best composite_key_quality by blast
    ultimately show ?thesis using best by blast
  qed
  show ?thesis
  proof (intro conjI)
    show "\<forall>k. 2 \<le> length (filter (\<lambda>t. track_key t = k) tracks)
        \<longrightarrow> (\<exists>g. (k, g) \<in> set (find_duplicates tracks))"
      by (intro allI impI) (rule complete)
    show "distinct (map fst (find_duplicates tracks))"
      by (rule distinct_find_duplicates)
    show "\<forall>k g. (k, g) \<in> set (find_duplicates tracks) \<longrightarrow>
         2 \<le> length g
         \<and> mset g = mset (filter (\<lambda>t. track_key t = k) tracks)
         \<and> (\<forall>t \<in> set g.
              composite_key t < composite_key (hd g)
              \<or> (composite_key t = composite_key (hd g) \<and> tid (hd g) \<le> tid t))
         \<and> (\<forall>t \<in> set g. quality_rank t \<le> quality_rank (hd g))"
      by (intro allI impI) (rule group)
    show "\<forall>t. quality_rank t = tier_rank (map_option upper (audio_quality t))"
      by (intro allI) (rule quality_rank_tier)
    show "\<forall>q. 0 \<le> tier_rank q
         \<and> (tier_rank q = 0 \<longleftrightarrow>
              q \<notin> {Some ''HI_RES_LOSSLESS'', Some ''HI_RES'', Some ''LOSSLESS'',
                    Some ''HIGH'', Some ''LOW''})"
      by (intro allI) (rule tier_rank_unknown_lowest)
    show "\<forall>t. remaster_year t
            = remaster_score (or_empty (title t) @ '' '' @ or_empty (album t))"
      by (intro allI) (rule remaster_year_score)
    show "\<forall>combined.
         (remaster_score combined = - 1 \<longleftrightarrow> \<not> found RE_REMASTER combined)
         \<and> (found RE_REMASTER combined \<and> search RE_YEAR combined = None
              \<longrightarrow> remaster_score combined = 0)
         \<and> (\<forall>m. found RE_REMASTER combined \<and> search RE_YEAR combined = Some m
              \<longrightarrow> remaster_score combined = int_of_digits m \<and> length m = 4
                 \<and> 1900 \<le> remaster_score combined \<and> remaster_score combined \<le> 2099)"
      by (intro allI) (rule remaster_score_cases)
  qed
qed

text \<open>
  The example of the specification in a group of three: a HIGH track titled
  "Remastered 2013" and two LOSSLESS tracks without remaster marker. The LOSSLESS
  track with the smaller identifier is kept, although it was listed last and the HIGH
  track has the smallest identifier of the three.
\<close>

theorem keeper_is_greatest_witness:
  "2 \<le> length (filter (\<lambda>t. track_key t = (''u2'', ''one''))
                  [track_high_remaster, track_lossless_later, track_lossless])
   \<and> ((''u2'', ''one''), [track_lossless, track_lossless_later, track_high_remaster])
        \<in> set (find_duplicates [track_high_remaster, track_lossless_later, track_lossless])
   \<and> hd [track_lossless, track_lossless_later, track_high_remaster] = track_lossless
   \<and> composite_key track_high_remaster < composite_key track_lossless
   \<and> (composite_key track_lossless_later < composite_key track_lossless
       \<or> (composite_key track_lossless_later = composite_key track_lossless
          \<and> tid track_lossless \<le> tid track_lossless_later))
   \<and> quality_rank track_high_remaster \<le> quality_rank track_lossless"
proof -
  let ?ts = "[track_high_remaster, track_lossless_later, track_lossless]"
  let ?g = "[track_lossless, track_lossless_later, track_high_remaster]"
  note t = keeper_is_greatest [of ?ts]
  note complete = t [THEN conjunct1, rule_format]
  note group = t [THEN conjunct2, THEN conjunct2, THEN conjunct1, rule_format]
  have len: "2 \<le> length (filter (\<lambda>t. track_key t = (''u2'', ''one'')) ?ts)"
    by (simp add: track_key_lossless track_key_lossless_later track_key_high_remaster)
  from complete [OF len]
  obtain g where "((''u2'', ''one''), g) \<in> set (find_duplicates ?ts)" ..
  then have mem: "((''u2'', ''one''), ?g) \<in> set (find_duplicates ?ts)"
    by (simp add: find_duplicates_three)
  note keeper = group [OF mem, THEN conjunct2, THEN conjunct2]
  have "\<forall>t \<in> set ?g.
          composite_key t < composite_key (hd ?g)
          \<or> (composite_key t = composite_key (hd ?g) \<and> tid (hd ?g) \<le> tid t)"
    and "\<forall>t \<in> set ?g. quality_rank t \<le> quality_rank (hd ?g)"
    using keeper [THEN conjunct1] keeper [THEN conjunct2] by this+
  then have a: "composite_key track_high_remaster < composite_key track_lossless
         \<or> (composite_key track_high_remaster = composite_key track_lossless
            \<and> tid track_lossless \<le> tid track_high_remaster)"
    and b: "composite_key track_lossless_later < composite_key track_lossless
       \<or> (composite_key track_lossless_later = composite_key track_lossless
          \<and> tid track_lossless \<le> tid track_lossless_later)"
    and q: "quality_rank track_high_remaster \<le> quality_rank track_lossless"
    by simp_all
  have "\<not> tid track_lossless \<le> tid track_high_remaster"
    by (simp add: track_lossless_def track_high_remaster_def)
  with a have "composite_key track_high_remaster < composite_key track_lossless" by blast
  with len mem b q show ?thesis by simp
qed

subsection \<open>The comparison\<close>

lemma ranks_before_total: "tid a \<noteq> tid b \<Longrightarrow> ranks_before a b \<or> ranks_before b a"
  unfolding ranks_before_def using sort_key_track_inj [of a b]
  by (auto simp: not_less_iff_gr_or_eq)

text \<open>
  Claim C2. The comparison the sort makes is transitive and asymmetric, and it orders
  any two tracks with different identifiers one way or the other. Hence in a list of
  tracks with pairwise distinct identifiers the track sorted to position 0 comes
  strictly before every other track (a single strict winner), and the sorted list does
  not depend on the order in which the tracks were listed.
\<close>

theorem ranking_strict_total_order:
  "(\<forall>a b c. ranks_before a b \<longrightarrow> ranks_before b c \<longrightarrow> ranks_before a c)
   \<and> (\<forall>a b. ranks_before a b \<longrightarrow> \<not> ranks_before b a)
   \<and> (\<forall>a b. tid a \<noteq> tid b \<longrightarrow> ranks_before a b \<or> ranks_before b a)
   \<and> (\<forall>g. distinct (map tid g) \<longrightarrow>
         (\<forall>t \<in> set g. t \<noteq> hd (sort_key sort_key_track g)
              \<longrightarrow> ranks_before (hd (sort_key sort_key_track g)) t))
   \<and> (\<forall>g g'. distinct (map tid g) \<longrightarrow> mset g' = mset g
         \<longrightarrow> sort_key sort_key_track g' = sort_key sort_key_track g)"
proof (intro conjI allI impI ballI)
  fix a b c assume "ranks_before a b" "ranks_before b c"
  then show "ranks_before a c" unfolding ranks_before_def by (rule less_trans)
next
  fix a b assume "ranks_before a b"
  then show "\<not> ranks_before b a" unfolding ranks_before_def by (simp add: less_asym)
next
  fix a b :: track
  assume "tid a \<noteq> tid b"
  then show "ranks_before a b \<or> ranks_before b a" by (rule ranks_before_total)
next
  fix g :: "track list" and t :: track
  assume d: "distinct (map tid g)" and t: "t \<in> set g"
    and ne: "t \<noteq> hd (sort_key sort_key_track g)"
  let ?h = "hd (sort_key sort_key_track g)"
  have "set (sort_key sort_key_track g) = set g" by simp
  then have "sort_key sort_key_track g \<noteq> []" using t by fastforce
  then have "?h \<in> set (sort_key sort_key_track g)" by (rule hd_in_set)
  then have h: "?h \<in> set g" by simp
  have le: "sort_key_track ?h \<le> sort_key_track t" using t by (rule hd_sort_key_least)
  have "tid ?h \<noteq> tid t"
    using d h t ne by (metis distinct_map inj_onD)
  then have "sort_key_track ?h \<noteq> sort_key_track t" using sort_key_track_inj by blast
  with le show "ranks_before ?h t" unfolding ranks_before_def by simp
next
  fix g g' :: "track list"
  assume d: "distinct (map tid g)" and m: "mset g' = mset g"
  have inj: "inj_on sort_key_track (set g')"
  proof (rule inj_onI)
    fix x y assume "x \<in> set g'" "y \<in> set g'" "sort_key_track x = sort_key_track y"
    moreover have "set g' = set g" using m by (rule mset_eq_setD)
    ultimately show "x = y"
      using d sort_key_track_inj by (metis distinct_map inj_onD)
  qed
  have "mset g' = mset (sort_key sort_key_track g)" using m by simp
  then show "sort_key sort_key_track g' = sort_key sort_key_track g"
    using inj sorted_sort_key by (rule sort_key_inj_key_eq)
qed

theorem ranking_strict_total_order_witness:
  "distinct (map tid [track_lossless, track_high_remaster])
   \<and> ranks_before track_lossless track_high_remaster
   \<and> \<not> ranks_before track_high_remaster track_lossless
   \<and> sort_key sort_key_track [track_high_remaster, track_lossless]
       = sort_key sort_key_track [track_lossless, track_high_remaster]"
proof -
  have d: "distinct (map tid [track_lossless, track_high_remaster])"
    by (simp add: track_lossless_def track_high_remaster_def)
  have b: "ranks_before track_lossless track_high_remaster"
    by (simp add: ranks_before_def sort_key_lossless sort_key_high_remaster less_prod_def)
  have m: "mset [track_high_remaster, track_lossless]
         = mset [track_lossless, track_high_remaster]"
    by simp
  from ranking_strict_total_order b
  have "\<not> ranks_before track_high_remaster track_lossless" by blast
  moreover from ranking_strict_total_order d m
  have "sort_key sort_key_track [track_high_remaster, track_lossless]
       = sort_key sort_key_track [track_lossless, track_high_remaster]" by blast
  ultimately show ?thesis using d b by blast
qed

section \<open>Titles made of noise only\<close>

text \<open>
  Claim C10. The two different, non-empty titles "Live" and "1999" both normalize to
  the empty text. Two tracks of one artist that carry them therefore get the same
  normalized key, \<open>find_duplicates\<close> puts them into one group, and a round sends a
  removal request for the second of them.
\<close>

theorem noise_only_titles_collide:
  "''Live'' \<noteq> ''1999''
   \<and> normalize_text ''Live'' = [] \<and> normalize_text ''1999'' = []
   \<and> title track_live = Some ''Live'' \<and> title track_1999 = Some ''1999''
   \<and> artist track_live = artist track_1999
   \<and> track_key track_live = track_key track_1999
   \<and> find_duplicates [track_live, track_1999] = [((''ab'', []), [track_live, track_1999])]
   \<and> remove_duplicates_round (all_removable [track_live, track_1999]) 1 empty_log
       = (1, \<lparr>removal_requests = [tid track_1999],
              all_removed = [(1, track_1999, track_live)], all_errors = []\<rparr>)"
proof -
  have "title track_live = Some ''Live''" "title track_1999 = Some ''1999''"
    "artist track_live = artist track_1999"
    by (simp_all add: track_live_def track_1999_def)
  moreover have "track_key track_live = track_key track_1999"
    by (simp add: track_key_live track_key_1999)
  moreover have "''Live'' \<noteq> ''1999''" by simp
  ultimately show ?thesis
    using normalize_live normalize_1999 find_duplicates_noise round_noise by blast
qed

section \<open>The collector's loop\<close>

lemma collect_loop_continue:
  "page_step (session (offset st)) st = (None, st') \<Longrightarrow>
   collect_loop session st = collect_loop session st'"
  by (subst collect_loop.simps) simp

lemma collect_loop_stop:
  "page_step (session (offset st)) st = (Some why, st') \<Longrightarrow>
   collect_loop session st = Some (why, st')"
  by (subst collect_loop.simps) simp

lemma page_step_empty:
  "page_step (Page []) st =
     (if consecutive_empty st \<ge> 1
      then (Some PagesExhausted, st\<lparr>consecutive_empty := consecutive_empty st + 1\<rparr>)
      else (None, st\<lparr>consecutive_empty := consecutive_empty st + 1,
                     offset := offset st + limit\<rparr>))"
  by (simp add: page_step_def Let_def)

lemma foldl_process_item_counter:
  "consecutive_empty (foldl process_item st items) = consecutive_empty st"
  by (induction items arbitrary: st)
     (auto simp: process_item_def Let_def split: option.splits)

lemma page_step_nonempty:
  assumes "items \<noteq> []"
  shows "fst (page_step (Page items) st) \<in> {None, Some LimitReached}"
    and "consecutive_empty (snd (page_step (Page items) st)) = 0"
  using assms by (simp_all add: page_step_def Let_def foldl_process_item_counter)

lemma counter_ok_step:
  assumes "counter_ok session st" and "page_step (session (offset st)) st = (None, st')"
  shows "counter_ok session st'"
proof (cases "session (offset st)")
  case RequestFailed
  with assms(2) show ?thesis by (simp add: page_step_def)
next
  case (Page items)
  show ?thesis
  proof (cases "items = []")
    case True
    with assms Page show ?thesis
      by (auto simp: page_step_empty counter_ok_def split: if_splits)
  next
    case False
    with page_step_nonempty(2) [OF False, of st] assms(2) Page show ?thesis
      by (simp add: counter_ok_def)
  qed
qed

lemma exhausted_step:
  assumes "counter_ok session st"
    and "page_step (session (offset st)) st = (Some PagesExhausted, st')"
  shows "limit \<le> offset st' \<and> session (offset st') = Page []
       \<and> session (offset st' - limit) = Page []"
proof (cases "session (offset st)")
  case RequestFailed
  with assms(2) show ?thesis by (simp add: page_step_def)
next
  case (Page items)
  show ?thesis
  proof (cases "items = []")
    case True
    with assms Page show ?thesis
      by (auto simp: page_step_empty counter_ok_def split: if_splits)
  next
    case False
    with page_step_nonempty(1) [OF False, of st] assms(2) Page show ?thesis
      by auto
  qed
qed

lemma collect_loop_exhausted:
  assumes "collect_loop session st = Some r"
  shows "counter_ok session st \<longrightarrow> fst r = PagesExhausted \<longrightarrow>
       limit \<le> offset (snd r) \<and> session (offset (snd r)) = Page []
       \<and> session (offset (snd r) - limit) = Page []"
  using assms
proof (rule collect_loop.raw_induct [rotated])
  fix loop :: "(nat \<Rightarrow> response) \<Rightarrow> cstate \<Rightarrow> (stop \<times> cstate) option"
    and session st r
  assume IH: "\<And>s b y. loop s b = Some y \<Longrightarrow>
      counter_ok s b \<longrightarrow> fst y = PagesExhausted \<longrightarrow>
       limit \<le> offset (snd y) \<and> s (offset (snd y)) = Page []
       \<and> s (offset (snd y) - limit) = Page []"
    and eq: "(case page_step (session (offset st)) st of
        (None, st') \<Rightarrow> loop session st'
      | (Some why, st') \<Rightarrow> Some (why, st')) = Some r"
  obtain w st' where ps: "page_step (session (offset st)) st = (w, st')"
    by (cases "page_step (session (offset st)) st")
  show "counter_ok session st \<longrightarrow> fst r = PagesExhausted \<longrightarrow>
       limit \<le> offset (snd r) \<and> session (offset (snd r)) = Page []
       \<and> session (offset (snd r) - limit) = Page []"
  proof (intro impI)
    assume ok: "counter_ok session st" and ex: "fst r = PagesExhausted"
    show "limit \<le> offset (snd r) \<and> session (offset (snd r)) = Page []
       \<and> session (offset (snd r) - limit) = Page []"
    proof (cases w)
      case None
      with eq ps have "loop session st' = Some r" by simp
      moreover have "counter_ok session st'"
        using ok ps None by (auto intro: counter_ok_step)
      ultimately show ?thesis using IH ex by blast
    next
      case (Some why)
      with eq ps have r: "r = (why, st')" by simp
      with ex have "why = PagesExhausted" by simp
      with exhausted_step [OF ok] ps Some r show ?thesis by simp
    qed
  qed
qed

lemma gap_run:
  "collect_loop gap_session initial_state
     = Some (PagesExhausted,
         \<lparr>all_tracks = [], seen_ids = {}, skipped_unavailable = 1, offset = 300,
          consecutive_empty = 2\<rparr>)"
proof -
  let ?s1 = "\<lparr>all_tracks = [], seen_ids = {}, skipped_unavailable = 0, offset = 100,
          consecutive_empty = 1\<rparr>"
  let ?s2 = "\<lparr>all_tracks = [], seen_ids = {}, skipped_unavailable = 1, offset = 200,
          consecutive_empty = 0\<rparr>"
  let ?s3 = "\<lparr>all_tracks = [], seen_ids = {}, skipped_unavailable = 1, offset = 300,
          consecutive_empty = 1\<rparr>"
  let ?s4 = "\<lparr>all_tracks = [], seen_ids = {}, skipped_unavailable = 1, offset = 300,
          consecutive_empty = 2\<rparr>"
  have "page_step (gap_session (offset initial_state)) initial_state = (None, ?s1)"
    by (simp add: gap_session_def initial_state_def page_step_empty limit_def)
  then have a: "collect_loop gap_session initial_state = collect_loop gap_session ?s1"
    by (rule collect_loop_continue)
  have "page_step (gap_session (offset ?s1)) ?s1 = (None, ?s2)"
    by (simp add: gap_session_def page_step_def process_item_def limit_def MAX_TRACKS_def)
  then have b: "collect_loop gap_session ?s1 = collect_loop gap_session ?s2"
    by (rule collect_loop_continue)
  have "page_step (gap_session (offset ?s2)) ?s2 = (None, ?s3)"
    by (simp add: gap_session_def page_step_empty limit_def)
  then have c: "collect_loop gap_session ?s2 = collect_loop gap_session ?s3"
    by (rule collect_loop_continue)
  have "page_step (gap_session (offset ?s3)) ?s3 = (Some PagesExhausted, ?s4)"
    by (simp add: gap_session_def page_step_empty limit_def)
  then have d: "collect_loop gap_session ?s3 = Some (PagesExhausted, ?s4)"
    by (rule collect_loop_stop)
  show ?thesis unfolding a b c d ..
qed

text \<open>
  Claim C4. If the loop, started in the initial state, stops for exhausted pages, then
  the page just requested and the page requested before it were both empty. On an empty
  page the loop goes on to the next offset when the counter is 0 and stops when it is
  1 or more. A page with at least one item never stops the loop for exhausted pages
  and leaves the counter at 0, whatever the items are (ghost entries included).
\<close>

theorem stops_only_after_two_empty_pages:
  "(collect_loop session initial_state = Some (PagesExhausted, st) \<longrightarrow>
      limit \<le> offset st \<and> session (offset st) = Page []
      \<and> session (offset st - limit) = Page [])
   \<and> (consecutive_empty st0 = 0 \<longrightarrow>
        page_step (Page []) st0
          = (None, st0\<lparr>consecutive_empty := 1, offset := offset st0 + limit\<rparr>))
   \<and> (1 \<le> consecutive_empty st0 \<longrightarrow> fst (page_step (Page []) st0) = Some PagesExhausted)
   \<and> (items \<noteq> [] \<longrightarrow>
        fst (page_step (Page items) st0) \<noteq> Some PagesExhausted
        \<and> consecutive_empty (snd (page_step (Page items) st0)) = 0)"
proof -
  have ok: "counter_ok session initial_state"
    by (simp add: counter_ok_def initial_state_def)
  have a: "limit \<le> offset st \<and> session (offset st) = Page []
      \<and> session (offset st - limit) = Page []"
    if "collect_loop session initial_state = Some (PagesExhausted, st)"
    using collect_loop_exhausted [OF that] ok by simp
  have d: "fst (page_step (Page items) st0) \<noteq> Some PagesExhausted
        \<and> consecutive_empty (snd (page_step (Page items) st0)) = 0" if "items \<noteq> []"
    using page_step_nonempty [OF that, of st0] by auto
  show ?thesis using a d by (simp add: page_step_empty)
qed

text \<open>An empty page, a page holding one ghost entry, and two empty pages: the loop stops
  at the fourth page, not at the first.\<close>

theorem stops_only_after_two_empty_pages_witness:
  "collect_loop gap_session initial_state
     = Some (PagesExhausted,
         \<lparr>all_tracks = [], seen_ids = {}, skipped_unavailable = 1, offset = 300,
          consecutive_empty = 2\<rparr>)
   \<and> gap_session 0 = Page [] \<and> gap_session 100 = Page [None]
   \<and> gap_session 200 = Page [] \<and> gap_session 300 = Page []
   \<and> page_step (gap_session 0) initial_state
       = (None, initial_state\<lparr>consecutive_empty := 1, offset := 100\<rparr>)
   \<and> consecutive_empty (snd (page_step (gap_session 100)
         (initial_state\<lparr>consecutive_empty := 1, offset := 100\<rparr>))) = 0"
proof -
  let ?fin = "\<lparr>all_tracks = [], seen_ids = {}, skipped_unavailable = 1, offset = 300,
          consecutive_empty = 2\<rparr>"
  note t = stops_only_after_two_empty_pages
    [of gap_session ?fin initial_state "[None]"]
  have g: "gap_session 0 = Page []" "gap_session 100 = Page [None]"
    by (simp_all add: gap_session_def)
  from t gap_run have "gap_session (offset ?fin) = Page []"
    "gap_session (offset ?fin - limit) = Page []" by simp_all
  then have l: "gap_session 300 = Page []" "gap_session 200 = Page []"
    by (simp_all add: limit_def)
  have "consecutive_empty initial_state = 0" by (simp add: initial_state_def)
  with t have "page_step (Page []) initial_state
      = (None, initial_state\<lparr>consecutive_empty := 1, offset := offset initial_state + limit\<rparr>)"
    by blast
  then have p: "page_step (gap_session 0) initial_state
       = (None, initial_state\<lparr>consecutive_empty := 1, offset := 100\<rparr>)"
    by (simp add: g limit_def initial_state_def)
  have "consecutive_empty (snd (page_step (Page [None])
         (initial_state\<lparr>consecutive_empty := 1, offset := 100\<rparr>))) = 0"
    using stops_only_after_two_empty_pages
      [of gap_session ?fin "initial_state\<lparr>consecutive_empty := 1, offset := 100\<rparr>" "[None]"]
    by blast
  with gap_run g l p show ?thesis by simp
qed

section \<open>The hard cap\<close>

lemma process_big_items:
  assumes "1 \<le> a" and "a \<le> b"
    and "all_tracks st = map big_track [1 ..< a]" and "seen_ids st = int ` {1 ..< a}"
  shows "foldl process_item st (map big_item [a ..< b])
       = st\<lparr>seen_ids := int ` {1 ..< b}, all_tracks := map big_track [1 ..< b]\<rparr>"
  using assms(2)
proof (induction b rule: dec_induct)
  case base
  show ?case using assms(3,4) by simp
next
  case (step n)
  have fresh: "int n \<notin> int ` {1 ..< n}" by auto
  have n0: "n \<noteq> 0" using assms(1) step(1) by simp
  have ins: "insert (int n) (int ` {Suc 0 ..< n}) = int ` {Suc 0 ..< Suc n}"
    using n0 by (auto simp: less_Suc_eq)
  have up: "[Suc 0 ..< Suc n] = [Suc 0 ..< n] @ [n]" using n0 by simp
  have "foldl process_item st (map big_item [a ..< Suc n])
      = process_item (foldl process_item st (map big_item [a ..< n])) (big_item n)"
    using step(1) by simp
  also have "\<dots> = st\<lparr>seen_ids := int ` {1 ..< Suc n},
                       all_tracks := map big_track [1 ..< Suc n]\<rparr>"
    unfolding step.IH using n0 fresh
    by (simp add: process_item_def big_item_def ins up del: upt_Suc)
  finally show ?case .
qed

lemma big_first_page:
  "page_step (big_library (offset initial_state)) initial_state = (None, big_state 1)"
proof -
  let ?g = "\<lparr>all_tracks = [], seen_ids = {}, skipped_unavailable = 1, offset = 0,
            consecutive_empty = 0\<rparr>"
  have items: "map big_item [0 ..< 100] = None # map big_item [1 ..< 100]"
    by (simp add: upt_conv_Cons big_item_def del: upt_Suc)
  have "foldl process_item ?g (map big_item [1 ..< 100])
      = ?g\<lparr>seen_ids := int ` {1 ..< 100}, all_tracks := map big_track [1 ..< 100]\<rparr>"
    by (rule process_big_items) simp_all
  then show ?thesis
    by (simp add: page_step_def big_library_def initial_state_def items process_item_def
        big_state_def limit_def MAX_TRACKS_def del: upt_Suc)
qed

lemma big_page:
  assumes "1 \<le> k" and "k \<le> 500"
  shows "page_step (big_library (offset (big_state k))) (big_state k) =
    (if k = 500 then (Some LimitReached, (big_state 501)\<lparr>offset := 50000\<rparr>)
     else (None, big_state (Suc k)))"
proof -
  have "foldl process_item (big_state k) (map big_item [100 * k ..< 100 * k + 100])
      = (big_state k)\<lparr>seen_ids := int ` {1 ..< 100 * k + 100},
                      all_tracks := map big_track [1 ..< 100 * k + 100]\<rparr>"
    using assms by (intro process_big_items) (simp_all add: big_state_def)
  moreover have "big_state k\<lparr>consecutive_empty := 0\<rparr> = big_state k"
    by (simp add: big_state_def)
  moreover have "[100 * k ..< 100 * k + 100] \<noteq> []" by simp
  ultimately show ?thesis
    using assms
    by (auto simp: page_step_def big_library_def big_state_def limit_def MAX_TRACKS_def
        Let_def add.commute simp del: upt_Suc)
qed

lemma big_loop_to_last:
  "n \<le> 499 \<Longrightarrow>
   collect_loop big_library (big_state (500 - n)) = collect_loop big_library (big_state 500)"
proof (induction n)
  case 0
  show ?case by simp
next
  case (Suc n)
  have "page_step (big_library (offset (big_state (500 - Suc n)))) (big_state (500 - Suc n))
      = (None, big_state (Suc (500 - Suc n)))"
    using Suc.prems by (subst big_page) auto
  then have "collect_loop big_library (big_state (500 - Suc n))
      = collect_loop big_library (big_state (Suc (500 - Suc n)))"
    by (rule collect_loop_continue)
  moreover have "Suc (500 - Suc n) = 500 - n" using Suc.prems by simp
  ultimately show ?case using Suc.IH Suc.prems by simp
qed

lemma big_run:
  "collect_loop big_library initial_state
     = Some (LimitReached, (big_state 501)\<lparr>offset := 50000\<rparr>)"
proof -
  have "collect_loop big_library initial_state = collect_loop big_library (big_state 1)"
    using big_first_page by (rule collect_loop_continue)
  also have "\<dots> = collect_loop big_library (big_state 500)"
    using big_loop_to_last [of 499] by simp
  also have "\<dots> = Some (LimitReached, (big_state 501)\<lparr>offset := 50000\<rparr>)"
    by (rule collect_loop_stop) (simp add: big_page)
  finally show ?thesis .
qed

text \<open>
  Claim C5 fails on the code: the cap is compared with the number of tracks only after
  a whole page has been added. On the list \<open>big_library\<close> the loop holds 49999 tracks
  after 500 pages, reads one more page and returns 50099 tracks.
\<close>

theorem limit_exceeded_by_last_page:
  "map_option length (get_all_tracks big_library) = Some 50099 \<and> MAX_TRACKS < 50099"
  by (simp add: get_all_tracks_def big_run big_state_def MAX_TRACKS_def)

section \<open>The convergence loop\<close>

lemma fst_remove_extras:
  "fst (foldl (remove_extra env n keeper) (e, lg) extras)
     = e + length (filter (\<lambda>t. remove_ok env (tid t)) extras)"
  by (induction extras arbitrary: e lg) (auto simp: remove_extra_def Let_def)

lemma fst_remove_group:
  "fst (remove_group env n (e, lg) kg)
     = e + length (filter (\<lambda>t. remove_ok env (tid t)) (tl (snd kg)))"
  by (cases "snd kg") (simp_all add: remove_group_def fst_remove_extras)

lemma fst_remove_groups:
  "fst (foldl (remove_group env n) (e, lg) groups)
     = e + (\<Sum>kg \<leftarrow> groups. length (filter (\<lambda>t. remove_ok env (tid t)) (tl (snd kg))))"
proof (induction groups arbitrary: e lg)
  case Nil
  show ?case by simp
next
  case (Cons kg groups)
  obtain e' lg' where s: "remove_group env n (e, lg) kg = (e', lg')"
    by (cases "remove_group env n (e, lg) kg")
  have "e' = e + length (filter (\<lambda>t. remove_ok env (tid t)) (tl (snd kg)))"
    using fst_remove_group [of env n e lg kg] s by simp
  then show ?case by (simp add: s Cons.IH)
qed

lemma fst_round: "fst (remove_duplicates_round env n lg) = round_removed env"
  by (simp add: round_removed_def remove_duplicates_round_def Let_def fst_remove_groups
      split: option.splits)

lemma round_no_groups:
  "listing env = Some tracks \<Longrightarrow> find_duplicates tracks = [] \<Longrightarrow>
   remove_duplicates_round env n lg = (0, lg)"
  by (simp add: remove_duplicates_round_def)

lemma run_rounds_Some:
  "run_rounds envs n lg = Some (m, lg') \<Longrightarrow>
   \<exists>k < length envs. m = n + k \<and> round_removed (envs ! k) = 0
      \<and> (\<forall>j < k. round_removed (envs ! j) \<noteq> 0)"
proof (induction envs arbitrary: n lg)
  case Nil
  then show ?case by simp
next
  case (Cons env envs)
  obtain e lg1 where r: "remove_duplicates_round env n lg = (e, lg1)"
    by (cases "remove_duplicates_round env n lg")
  have e: "e = round_removed env" using fst_round [of env n lg] r by simp
  show ?case
  proof (cases "e = 0")
    case True
    with Cons.prems r have "m = n" by simp
    with True e show ?thesis by (intro exI [of _ 0]) simp
  next
    case False
    with Cons.prems r have "run_rounds envs (n + 1) lg1 = Some (m, lg')" by simp
    from Cons.IH [OF this] obtain k where k: "k < length envs" "m = n + 1 + k"
      "round_removed (envs ! k) = 0" "\<forall>j < k. round_removed (envs ! j) \<noteq> 0"
      by blast
    have "\<forall>j < Suc k. round_removed ((env # envs) ! j) \<noteq> 0"
      using k(4) False e by (auto simp: less_Suc_eq_0_disj)
    with k show ?thesis by (intro exI [of _ "Suc k"]) simp
  qed
qed

lemma run_rounds_None:
  "run_rounds envs n lg = None \<longleftrightarrow> (\<forall>k < length envs. round_removed (envs ! k) \<noteq> 0)"
proof (induction envs arbitrary: n lg)
  case Nil
  then show ?case by simp
next
  case (Cons env envs)
  obtain e lg1 where r: "remove_duplicates_round env n lg = (e, lg1)"
    by (cases "remove_duplicates_round env n lg")
  have e: "e = round_removed env" using fst_round [of env n lg] r by simp
  show ?case
    using Cons.IH [of "n + 1" lg1] e r by (auto simp: All_less_Suc2) 
qed

lemma find_duplicates_single: "find_duplicates [t] = []"
  by (simp add: find_duplicates_def group_tracks_def)

text \<open>
  Claim C6 as stated fails on the code: a round in which the grouping step finds no
  group returns 0, and the loop stops on it. Here the first round removes a copy, the
  second lists a single track and ends the loop, and the third round, which would
  have found a group again, is never run.
\<close>

theorem zero_group_round_ends_loop:
  "find_duplicates [track_lossless] = []
   \<and> find_duplicates [track_live, track_1999] \<noteq> []
   \<and> main_loop [all_removable [track_live, track_1999], all_removable [track_lossless],
                 all_removable [track_live, track_1999]]
       = Some (2, \<lparr>removal_requests = [tid track_1999],
                  all_removed = [(1, track_1999, track_live)], all_errors = []\<rparr>)"
proof -
  let ?lg = "\<lparr>removal_requests = [tid track_1999],
              all_removed = [(1, track_1999, track_live)], all_errors = []\<rparr>"
  have "remove_duplicates_round (all_removable [track_lossless]) 2 ?lg = (0, ?lg)"
    by (simp add: remove_duplicates_round_def all_removable_def find_duplicates_single)
  then show ?thesis
    by (simp add: find_duplicates_single find_duplicates_noise main_loop_def round_noise
        del: One_nat_def)
qed

text \<open>
  Claim C6, amended. The loop stops at the first round that removes zero copies: if it
  returns round number \<open>m\<close>, round \<open>m\<close> removed nothing and every round before it
  removed something; it is still running after the listed rounds exactly when each of
  them removed something. A round in which the grouping step finds zero groups removes
  zero copies, and so ends the loop.
\<close>

theorem loop_ends_at_first_round_without_removal:
  "(main_loop envs = Some (m, lg) \<longrightarrow>
      1 \<le> m \<and> m \<le> length envs \<and> round_removed (envs ! (m - 1)) = 0
      \<and> (\<forall>j < m - 1. round_removed (envs ! j) \<noteq> 0))
   \<and> (main_loop envs = None \<longleftrightarrow> (\<forall>k < length envs. round_removed (envs ! k) \<noteq> 0))
   \<and> fst (remove_duplicates_round env n lg0) = round_removed env
   \<and> (listing env = Some tracks \<and> find_duplicates tracks = [] \<longrightarrow> round_removed env = 0)"
proof -
  have a: "1 \<le> m \<and> m \<le> length envs \<and> round_removed (envs ! (m - 1)) = 0
      \<and> (\<forall>j < m - 1. round_removed (envs ! j) \<noteq> 0)" if "main_loop envs = Some (m, lg)"
  proof -
    from that obtain k where "k < length envs" "m = 1 + k" "round_removed (envs ! k) = 0"
      "\<forall>j < k. round_removed (envs ! j) \<noteq> 0"
      unfolding main_loop_def by (blast dest: run_rounds_Some)
    then show ?thesis by simp
  qed
  have b: "round_removed env = 0" if "listing env = Some tracks" "find_duplicates tracks = []"
    using that by (simp add: round_removed_def round_no_groups)
  show ?thesis using a b by (simp add: main_loop_def run_rounds_None fst_round)
qed

theorem loop_ends_at_first_round_without_removal_witness:
  "main_loop [all_removable [track_live, track_1999], all_removable [track_live]]
     = Some (2, \<lparr>removal_requests = [tid track_1999],
              all_removed = [(1, track_1999, track_live)], all_errors = []\<rparr>)
   \<and> round_removed (all_removable [track_live, track_1999]) \<noteq> 0
   \<and> round_removed (all_removable [track_live]) = 0"
proof -
  let ?envs = "[all_removable [track_live, track_1999], all_removable [track_live]]"
  let ?lg = "\<lparr>removal_requests = [tid track_1999],
              all_removed = [(1, track_1999, track_live)], all_errors = []\<rparr>"
  have r2: "remove_duplicates_round (all_removable [track_live]) 2 ?lg = (0, ?lg)"
    by (simp add: remove_duplicates_round_def all_removable_def find_duplicates_single)
  have run: "main_loop ?envs = Some (2, ?lg)"
    by (simp add: main_loop_def round_noise r2 del: One_nat_def)
  note t = loop_ends_at_first_round_without_removal
    [of ?envs 2 ?lg "all_removable [track_live]" 0 empty_log "[track_live]"]
  from t run have "round_removed (?envs ! (2 - 1)) = 0"
    "\<forall>j < 2 - 1. round_removed (?envs ! j) \<noteq> 0" by blast+
  then have "round_removed (all_removable [track_live]) = 0"
    "round_removed (all_removable [track_live, track_1999]) \<noteq> 0" by simp_all
  with run show ?thesis by simp
qed

section \<open>The upgrade matcher\<close>

lemma quality_rank_nonneg: "0 \<le> quality_rank c"
  by (auto simp: quality_rank_def QUALITY_RANK_def split: option.splits if_splits)

lemma quality_rank_unknown: "audio_quality c = None \<Longrightarrow> quality_rank c = 0"
  by (simp add: quality_rank_def get_quality_def QUALITY_RANK_def)

lemma best_loop_skip:
  "audio_quality x = None \<or> \<not> same_song t x \<or> quality_rank x \<le> br \<Longrightarrow>
   best_loop t best br (x # cs) = best_loop t best br cs"
  by (auto simp: same_song_def Let_def)

lemma best_loop_take:
  "audio_quality x \<noteq> None \<Longrightarrow> same_song t x \<Longrightarrow> br < quality_rank x \<Longrightarrow>
   best_loop t best br (x # cs) = best_loop t (Some x) (quality_rank x) cs"
  by (auto simp: same_song_def Let_def)

lemma wins_Nil: "\<not> wins t br [] c"
  by (simp add: wins_def)

lemma wins_Cons:
  "wins t br (x # cs) c \<longleftrightarrow>
     (x = c \<and> same_song t c \<and> br < quality_rank c
        \<and> (\<forall>d \<in> set cs. same_song t d \<longrightarrow> quality_rank d \<le> quality_rank c))
     \<or> ((same_song t x \<longrightarrow> quality_rank x < quality_rank c) \<and> wins t br cs c)"
  unfolding wins_def
  apply (rule iffI)
   apply (elim exE conjE)
  subgoal for pre post
    by (cases pre) auto
  apply (erule disjE)
   apply (rule exI [of _ "[]"])
   apply auto[1]
  apply (elim exE conjE)
  subgoal for pre post
    apply (rule exI [of _ "x # pre"])
    apply (rule exI [of _ post])
    by auto
  done

lemma wins_gt: "wins t br cs c \<Longrightarrow> br < quality_rank c"
  unfolding wins_def by blast

lemma wins_raise:
  "wins t br cs c \<Longrightarrow> br' < quality_rank c \<Longrightarrow> wins t br' cs c"
  unfolding wins_def by force

lemma best_loop_iff:
  "0 \<le> br \<Longrightarrow>
   best_loop t best br cs = Some c \<longleftrightarrow>
     (best = Some c \<and> (\<forall>d \<in> set cs. same_song t d \<longrightarrow> quality_rank d \<le> br))
     \<or> wins t br cs c"
proof (induction cs arbitrary: best br)
  case Nil
  then show ?case by (simp add: wins_Nil)
next
  case (Cons x cs)
  show ?case
  proof (cases "audio_quality x \<noteq> None \<and> same_song t x \<and> br < quality_rank x")
    case True
    then have e: "best_loop t best br (x # cs) = best_loop t (Some x) (quality_rank x) cs"
      by (intro best_loop_take) auto
    have ih: "best_loop t (Some x) (quality_rank x) cs = Some c \<longleftrightarrow>
        (Some x = Some c \<and> (\<forall>d \<in> set cs. same_song t d \<longrightarrow> quality_rank d \<le> quality_rank x))
        \<or> wins t (quality_rank x) cs c"
      by (rule Cons.IH) (rule quality_rank_nonneg)
    have w: "wins t (quality_rank x) cs c \<longleftrightarrow> quality_rank x < quality_rank c \<and> wins t br cs c"
    proof
      assume a: "wins t (quality_rank x) cs c"
      then have "quality_rank x < quality_rank c" by (rule wins_gt)
      moreover from this True have "br < quality_rank c" by simp
      ultimately show "quality_rank x < quality_rank c \<and> wins t br cs c"
        using a wins_raise by blast
    next
      assume "quality_rank x < quality_rank c \<and> wins t br cs c"
      then show "wins t (quality_rank x) cs c" using wins_raise by blast
    qed
    show ?thesis
      unfolding e ih w wins_Cons using True by auto
  next
    case False
    then have e: "best_loop t best br (x # cs) = best_loop t best br cs"
      by (intro best_loop_skip) auto
    have ih: "best_loop t best br cs = Some c \<longleftrightarrow>
        (best = Some c \<and> (\<forall>d \<in> set cs. same_song t d \<longrightarrow> quality_rank d \<le> br))
        \<or> wins t br cs c"
      by (rule Cons.IH) (rule Cons.prems)
    have x0: "same_song t x \<Longrightarrow> quality_rank x \<le> br"
      using False Cons.prems quality_rank_unknown [of x] by (cases "audio_quality x = None") auto
    have w: "wins t br (x # cs) c \<longleftrightarrow> wins t br cs c"
    proof
      assume "wins t br (x # cs) c"
      then show "wins t br cs c" using x0 by (auto simp: wins_Cons)
    next
      assume a: "wins t br cs c"
      then have "br < quality_rank c" by (rule wins_gt)
      with a x0 show "wins t br (x # cs) c" by (auto simp: wins_Cons)
    qed
    have "wins t br cs c \<Longrightarrow> \<not> (\<forall>d \<in> set cs. same_song t d \<longrightarrow> quality_rank d \<le> br)"
      by (auto simp: wins_def)
    then show ?thesis
      unfolding e ih w using x0 by auto
  qed
qed

lemma best_loop_None_iff:
  "0 \<le> br \<Longrightarrow>
   best_loop t best br cs = None \<longleftrightarrow>
     best = None \<and> (\<forall>d \<in> set cs. same_song t d \<longrightarrow> quality_rank d \<le> br)"
proof (induction cs arbitrary: best br)
  case Nil
  show ?case by simp
next
  case (Cons x cs)
  show ?case
  proof (cases "audio_quality x \<noteq> None \<and> same_song t x \<and> br < quality_rank x")
    case True
    then have e: "best_loop t best br (x # cs) = best_loop t (Some x) (quality_rank x) cs"
      by (intro best_loop_take) auto
    have "best_loop t (Some x) (quality_rank x) cs \<noteq> None"
      using Cons.IH [OF quality_rank_nonneg, of "Some x" x] by simp
    then show ?thesis unfolding e using True by auto
  next
    case False
    then have e: "best_loop t best br (x # cs) = best_loop t best br cs"
      by (intro best_loop_skip) auto
    have x0: "same_song t x \<Longrightarrow> quality_rank x \<le> br"
      using False Cons.prems quality_rank_unknown [of x] by (cases "audio_quality x = None") auto
    show ?thesis unfolding e using Cons.IH [OF Cons.prems, of best] x0 by auto
  qed
qed

lemma same_song_track_key:
  "artist t \<noteq> None \<Longrightarrow> artist c \<noteq> None \<Longrightarrow> same_song t c \<longleftrightarrow> track_key c = track_key t"
  by (auto simp: same_song_def track_key_def or_empty_def)

lemma track_key_same_text:
  "title a = title b \<Longrightarrow> artist a = artist b \<Longrightarrow> track_key a = track_key b"
  by (simp add: track_key_def)

lemma quality_rank_same_quality:
  "audio_quality a = audio_quality b \<Longrightarrow> quality_rank a = quality_rank b"
  by (simp add: quality_rank_def get_quality_def)


lemma get_quality_hi_res: "get_quality track_hi_res = ''HI_RES''"
  by code_simp

lemma rank_high: "quality_rank track_high_remaster = 2"
  by code_simp

lemma rank_lossless: "quality_rank track_lossless = 3"
  by code_simp

lemma rank_hi_res: "quality_rank track_hi_res = 4"
  by code_simp

lemma rank_max: "quality_rank track_max = 5"
  by code_simp

lemma same_song_examples:
  "same_song track_high_remaster track_lossless"
  "same_song track_high_remaster track_lossless_later"
  "same_song track_high_remaster track_high_remaster"
  "\<not> same_song track_high_remaster track_other_max"
  "same_song track_hi_res track_max"
proof -
  have k: "track_key track_lossless_later = track_key track_lossless"
    "track_key track_other_max = track_key track_live"
    "track_key track_max = track_key track_hi_res"
    by (rule track_key_same_text;
        simp add: track_lossless_later_def track_lossless_def track_other_max_def
          track_live_def track_max_def track_hi_res_def)+
  have a: "artist track_high_remaster \<noteq> None" "artist track_lossless \<noteq> None"
    "artist track_lossless_later \<noteq> None" "artist track_other_max \<noteq> None"
    "artist track_hi_res \<noteq> None" "artist track_max \<noteq> None"
    by (simp_all add: track_high_remaster_def track_lossless_def track_lossless_later_def
        track_other_max_def track_hi_res_def track_max_def)
  show "same_song track_high_remaster track_lossless"
    "same_song track_high_remaster track_lossless_later"
    "same_song track_high_remaster track_high_remaster"
    "\<not> same_song track_high_remaster track_other_max"
    "same_song track_hi_res track_max"
    by (simp_all add: same_song_track_key a k track_key_lossless track_key_high_remaster
        track_key_live)
qed


lemma upgrade_to_max_found:
  "search_better_version (Some [track_max]) track_hi_res = Some track_max"
proof -
  have "audio_quality track_max \<noteq> None" by (simp add: track_max_def)
  then have "best_loop track_hi_res None (quality_rank track_hi_res) [track_max]
      = best_loop track_hi_res (Some track_max) (quality_rank track_max) []"
    by (rule best_loop_take) (simp_all add: same_song_examples rank_hi_res rank_max)
  then show ?thesis by (simp add: search_better_version_def)
qed

text \<open>
  Claim C7. When the search answers with a list of candidates,
  \<open>search_better_version\<close> returns \<open>c\<close> exactly when \<open>c\<close> is a candidate whose normalized
  artist and title equal the track's, whose quality tier is strictly above the track's,
  strictly above that of every such candidate listed before it and not below that of
  any such candidate listed after it. It returns none exactly when no candidate of the
  same song has a tier strictly above the track's.
\<close>

theorem search_better_version_first_best:
  "(search_better_version (Some candidates) t = Some c \<longleftrightarrow>
      (\<exists>pre post. candidates = pre @ c # post
         \<and> same_song t c \<and> quality_rank t < quality_rank c
         \<and> (\<forall>d \<in> set pre. same_song t d \<longrightarrow> quality_rank d < quality_rank c)
         \<and> (\<forall>d \<in> set post. same_song t d \<longrightarrow> quality_rank d \<le> quality_rank c)))
   \<and> (search_better_version (Some candidates) t = None \<longleftrightarrow>
      (\<forall>d \<in> set candidates. same_song t d \<longrightarrow> quality_rank d \<le> quality_rank t))"
  using best_loop_iff [OF quality_rank_nonneg, of t None t candidates c]
    best_loop_None_iff [OF quality_rank_nonneg, of t None t candidates]
  by (simp add: search_better_version_def wins_def)

text \<open>For a HIGH track: a top-tier candidate of another song and an equal-tier candidate
  are passed over, and of two LOSSLESS candidates the first is returned.\<close>

theorem search_better_version_first_best_witness:
  "search_better_version
     (Some [track_other_max, track_high_remaster, track_lossless, track_lossless_later])
     track_high_remaster = Some track_lossless
   \<and> search_better_version (Some [track_other_max, track_high_remaster]) track_high_remaster
       = None"
proof -
  have q: "quality_rank track_lossless_later = quality_rank track_lossless"
    by (rule quality_rank_same_quality)
       (simp add: track_lossless_later_def track_lossless_def)
  have "\<exists>pre post.
      [track_other_max, track_high_remaster, track_lossless, track_lossless_later]
        = pre @ track_lossless # post
      \<and> same_song track_high_remaster track_lossless
      \<and> quality_rank track_high_remaster < quality_rank track_lossless
      \<and> (\<forall>d \<in> set pre. same_song track_high_remaster d
            \<longrightarrow> quality_rank d < quality_rank track_lossless)
      \<and> (\<forall>d \<in> set post. same_song track_high_remaster d
            \<longrightarrow> quality_rank d \<le> quality_rank track_lossless)"
    by (rule exI [of _ "[track_other_max, track_high_remaster]"],
        rule exI [of _ "[track_lossless_later]"])
       (simp add: same_song_examples rank_high rank_lossless q)
  then have a: "search_better_version
     (Some [track_other_max, track_high_remaster, track_lossless, track_lossless_later])
     track_high_remaster = Some track_lossless"
    using search_better_version_first_best
      [of "[track_other_max, track_high_remaster, track_lossless, track_lossless_later]"
          track_high_remaster track_lossless]
    by blast
  have "\<forall>d \<in> set [track_other_max, track_high_remaster].
      same_song track_high_remaster d \<longrightarrow> quality_rank d \<le> quality_rank track_high_remaster"
    by (simp add: same_song_examples)
  then have "search_better_version (Some [track_other_max, track_high_remaster])
      track_high_remaster = None"
    using search_better_version_first_best
      [of "[track_other_max, track_high_remaster]" track_high_remaster track_lossless]
    by blast
  with a show ?thesis by simp
qed



text \<open>
  Claim C9. A track whose quality is HI_RES or HI_RES_LOSSLESS is skipped: the step
  only counts it, makes no call (no search in particular) and changes neither the
  favourites nor the counter of improved tracks. A HI_RES track has rank 4, below
  the rank 5 of HI_RES_LOSSLESS.
\<close>

theorem top_two_tiers_are_skipped:
  assumes "get_quality t = ''HI_RES'' \<or> get_quality t = ''HI_RES_LOSSLESS''"
  shows "process_track svc st t = st\<lparr>skipped_top := skipped_top st + 1\<rparr>
       \<and> calls (process_track svc st t) = calls st
       \<and> favorites (process_track svc st t) = favorites st
       \<and> improved (process_track svc st t) = improved st
       \<and> (get_quality t = ''HI_RES'' \<longrightarrow> quality_rank t = 4)
       \<and> (get_quality t = ''HI_RES_LOSSLESS'' \<longrightarrow> quality_rank t = 5)"
  using assms by (auto simp: process_track_def TOP_QUALITIES_def quality_rank_def QUALITY_RANK_def)

text \<open>A HI_RES track is skipped although the service offers a HI_RES_LOSSLESS copy of
  the same song, which \<open>search_better_version\<close> would return.\<close>

theorem top_two_tiers_are_skipped_witness:
  "get_quality track_hi_res = ''HI_RES''
   \<and> search_better_version
        (search_results (offering track_max False False) (calls start_state) track_hi_res)
        track_hi_res = Some track_max
   \<and> quality_rank track_hi_res = 4 \<and> quality_rank track_max = 5
   \<and> process_track (offering track_max False False) start_state track_hi_res
       = start_state\<lparr>skipped_top := 1\<rparr>"
proof -
  have q: "get_quality track_hi_res = ''HI_RES'' \<or> get_quality track_hi_res = ''HI_RES_LOSSLESS''"
    by (simp add: get_quality_hi_res)
  from top_two_tiers_are_skipped [OF q, of "offering track_max False False" start_state]
  have "process_track (offering track_max False False) start_state track_hi_res
       = start_state\<lparr>skipped_top := 1\<rparr>" and "quality_rank track_hi_res = 4"
    by (simp_all add: start_state_def get_quality_hi_res)
  then show ?thesis
    by (simp add: get_quality_hi_res offering_def upgrade_to_max_found rank_max)
qed

end
